theory Spec2Isabelle
  imports Complex_Main "HOL-Library.Word"
begin

unbundle bit_operations_syntax

section \<open>Secure fog simulation: mobility, classification, rekeying and broadcast routing\<close>

text \<open>
  A shallow embedding of \<^verbatim>\<open>secure_fog_simulation.py\<close>.  Node identifiers are Python
  strings.  The simulated clock \<^verbatim>\<open>sim.env.now\<close> starts at 0 and advances by the delays that
  \<^verbatim>\<open>run_simulation\<close> configures for the two monitors, the integers from 30 to 60 and the
  integer 120, so every time a monitor reads is a Python \<^verbatim>\<open>int\<close>; it is modelled as an
  \<^typ>\<open>int\<close>, on which the subtraction and the comparison of the source are exact.  Times
  held as Python floats, whose subtraction rounds, are outside this model.
  Every call of \<^verbatim>\<open>random.choice\<close> and \<^verbatim>\<open>random.choices\<close> takes the drawn index as an
  explicit argument, so a run is a function of the draws.
\<close>

type_synonym node = string
type_synonym time = int

subsection \<open>\<^verbatim>\<open>AI_Monitor\<close>: the windowed movement classifier\<close>

datatype status = NORMAL | ATTACKER

record AI_Monitor =
  move_counts :: "node \<rightharpoonup> time list"
  suspicion_threshold :: nat

text \<open>\<^verbatim>\<open>AI_Monitor.__init__\<close>: an empty dictionary and the threshold 3.\<close>

definition AI_Monitor_init :: AI_Monitor where
  "AI_Monitor_init = \<lparr>move_counts = Map.empty, suspicion_threshold = 3\<rparr>"

text \<open>
  \<^verbatim>\<open>check_node_movement(self, node_id, time)\<close>: a missing key is first bound to the
  empty list, \<^verbatim>\<open>time\<close> is appended, the list is rebuilt from the entries with
  \<^verbatim>\<open>time - t < 300\<close>, and its length is compared with the threshold.  The times are
  integers, as the clock of this program is, so \<^verbatim>\<open>time - t\<close> is the exact difference.
\<close>

definition check_node_movement :: "AI_Monitor \<Rightarrow> node \<Rightarrow> time \<Rightarrow> status \<times> AI_Monitor" where
  "check_node_movement self node_id time =
     (let stored = (case move_counts self node_id of None \<Rightarrow> [] | Some ts \<Rightarrow> ts);
          appended = stored @ [time];
          kept = filter (\<lambda>t. time - t < 300) appended;
          self' = self\<lparr>move_counts := (move_counts self)(node_id \<mapsto> kept)\<rparr>
      in (if length kept > suspicion_threshold self' then ATTACKER else NORMAL, self'))"

text \<open>A sequence of classifier calls, threading the monitor through them.\<close>

fun check_all :: "AI_Monitor \<Rightarrow> (node \<times> time) list \<Rightarrow> status list \<times> AI_Monitor" where
  "check_all self [] = ([], self)"
| "check_all self ((n, t) # calls) =
     (let (s, self') = check_node_movement self n t;
          (ss, self'') = check_all self' calls
      in (s # ss, self''))"

text \<open>The movement history of a node: the stored list, empty when the key is absent.\<close>

definition history :: "AI_Monitor \<Rightarrow> node \<Rightarrow> time list" where
  "history self n = (case move_counts self n of None \<Rightarrow> [] | Some ts \<Rightarrow> ts)"

text \<open>The times at which a call sequence names a node, in call order.\<close>

definition times_of :: "node \<Rightarrow> (node \<times> time) list \<Rightarrow> time list" where
  "times_of n calls = map snd (filter (\<lambda>c. fst c = n) calls)"

subsection \<open>The topology graph\<close>

text \<open>
  \<^verbatim>\<open>sim.topology.G\<close> is a \<^verbatim>\<open>networkx.Graph\<close>: an undirected simple graph whose node and
  adjacency dictionaries keep insertion order.  The library is not part of the
  repository; the operations the source calls are modelled after its documented
  behaviour.  The node dictionary is an association list in insertion order, holding
  the \<^verbatim>\<open>type\<close> attribute of each node (absent for a node that was only ever named by
  \<^verbatim>\<open>add_edge\<close>); the resource attributes IPT and RAM are never read and are left out.
  The edges are one list in insertion order, each edge stored once with its attributes
  \<^verbatim>\<open>(BW, PR)\<close>; the adjacency of a node is the sub-sequence of edges that touch it, which
  is the order in which \<^verbatim>\<open>G.neighbors\<close> iterates.
\<close>

datatype kind = LEADER | CLUSTER | MOBILE

type_synonym edge_attrs = "int \<times> int"

record graph =
  nodes :: "(node \<times> kind option) list"
  edges :: "(node \<times> node \<times> edge_attrs) list"

datatype py_error = IndexError | KeyError | NetworkXError | NodeNotFound | NetworkXNoPath

definition empty_graph :: graph where
  "empty_graph = \<lparr>nodes = [], edges = []\<rparr>"

definition has_node :: "graph \<Rightarrow> node \<Rightarrow> bool" where
  "has_node g n = (n \<in> set (map fst (nodes g)))"

text \<open>\<^verbatim>\<open>G.nodes[n].get('type')\<close>, for a node \<open>n\<close> of the graph.\<close>

definition node_type :: "graph \<Rightarrow> node \<Rightarrow> kind option" where
  "node_type g n = (case map_of (nodes g) n of None \<Rightarrow> None | Some k \<Rightarrow> k)"

text \<open>\<^verbatim>\<open>G.add_node(n, type=k)\<close>: a new key goes last, an existing key keeps its place.\<close>

definition add_node :: "graph \<Rightarrow> node \<Rightarrow> kind \<Rightarrow> graph" where
  "add_node g n k =
     g\<lparr>nodes := (if has_node g n
                  then map (\<lambda>p. if fst p = n then (n, Some k) else p) (nodes g)
                  else nodes g @ [(n, Some k)])\<rparr>"

text \<open>An edge joins \<open>u\<close> and \<open>v\<close> in either orientation.\<close>

definition joins :: "node \<Rightarrow> node \<Rightarrow> node \<times> node \<times> edge_attrs \<Rightarrow> bool" where
  "joins u v e = ((fst e = u \<and> fst (snd e) = v) \<or> (fst e = v \<and> fst (snd e) = u))"

definition has_edge :: "graph \<Rightarrow> node \<Rightarrow> node \<Rightarrow> bool" where
  "has_edge g u v = list_ex (joins u v) (edges g)"

text \<open>A node that \<^verbatim>\<open>add_edge\<close> names and the graph lacks is added without attributes.\<close>

definition touch :: "graph \<Rightarrow> node \<Rightarrow> graph" where
  "touch g n = (if has_node g n then g else g\<lparr>nodes := nodes g @ [(n, None)]\<rparr>)"

text \<open>
  \<^verbatim>\<open>G.add_edge(u, v, BW=.., PR=..)\<close>.  On a pair that already has an edge networkx
  updates the attributes of that edge in place; it raises nothing.
\<close>

definition add_edge :: "graph \<Rightarrow> node \<Rightarrow> node \<Rightarrow> edge_attrs \<Rightarrow> graph" where
  "add_edge g u v a =
     (let g' = touch (touch g u) v
      in g'\<lparr>edges := (if has_edge g' u v
                       then map (\<lambda>e. if joins u v e then (fst e, fst (snd e), a) else e) (edges g')
                       else edges g' @ [(u, v, a)])\<rparr>)"

text \<open>\<^verbatim>\<open>G.remove_edge(u, v)\<close> raises \<^verbatim>\<open>NetworkXError\<close> when there is no such edge.\<close>

definition remove_edge :: "graph \<Rightarrow> node \<Rightarrow> node \<Rightarrow> py_error + graph" where
  "remove_edge g u v =
     (if has_edge g u v then Inr (g\<lparr>edges := filter (\<lambda>e. \<not> joins u v e) (edges g)\<rparr>)
      else Inl NetworkXError)"

text \<open>\<^verbatim>\<open>G.neighbors(n)\<close>, in adjacency order.\<close>

definition neighbors :: "graph \<Rightarrow> node \<Rightarrow> node list" where
  "neighbors g n =
     concat (map (\<lambda>e. if fst e = n then [fst (snd e)] else if fst (snd e) = n then [fst e] else [])
                 (edges g))"

text \<open>The attachment edges of a node: its neighbours of type CLUSTER.\<close>

definition attachments :: "graph \<Rightarrow> node \<Rightarrow> node list" where
  "attachments g n = filter (\<lambda>c. node_type g c = Some CLUSTER) (neighbors g n)"

subsection \<open>The event log and the simulation state\<close>

datatype event =
    INITIAL time node node
  | MOVE time node "node option" node status
  | REKEY time string string

record MovementManager =
  ai_monitor :: AI_Monitor
  mobile_nodes :: "node list"
  cluster_nodes :: "node list"
  initialized :: bool
  node_locations :: "node \<rightharpoonup> node"

text \<open>
  Everything the monitors read and write: the graph \<^verbatim>\<open>sim.topology.G\<close>, the clock
  \<^verbatim>\<open>sim.env.now\<close>, the global list \<^verbatim>\<open>simulation_log\<close>, the flag
  \<^verbatim>\<open>routing.invalid_cache_value\<close> and the movement manager with its classifier.
\<close>

record world =
  topology_G :: graph
  env_now :: time
  simulation_log :: "event list"
  invalid_cache_value :: bool
  movement_manager :: MovementManager

definition MovementManager_init :: "AI_Monitor \<Rightarrow> MovementManager" where
  "MovementManager_init ai =
     \<lparr>ai_monitor = ai, mobile_nodes = [], cluster_nodes = [], initialized = False,
      node_locations = Map.empty\<rparr>"

text \<open>
  \<^verbatim>\<open>random.choice(xs)\<close> with the drawn number \<open>r\<close>: IndexError on an empty list, otherwise
  the element at index \<open>r mod len(xs)\<close>.
\<close>

definition random_choice :: "nat \<Rightarrow> 'a list \<Rightarrow> py_error + 'a" where
  "random_choice r xs = (if xs = [] then Inl IndexError else Inr (xs ! (r mod length xs)))"

text \<open>
  One iteration of the loop of \<^verbatim>\<open>MovementManager.initialize\<close> over
  \<^verbatim>\<open>G.nodes(data=True)\<close>.  The inner loop stops at the first neighbour of type CLUSTER.
  Every neighbour is a node of the graph, so \<^verbatim>\<open>G.nodes[neighbor]\<close> does not raise.
\<close>

definition initialize_node :: "graph \<Rightarrow> MovementManager \<Rightarrow> node \<times> kind option \<Rightarrow> MovementManager" where
  "initialize_node g self nd =
     (if snd nd = Some MOBILE then
        (let self' = self\<lparr>mobile_nodes := mobile_nodes self @ [fst nd]\<rparr>
         in case find (\<lambda>neighbor. node_type g neighbor = Some CLUSTER) (neighbors g (fst nd)) of
              None \<Rightarrow> self'
            | Some neighbor \<Rightarrow>
                self'\<lparr>node_locations := (node_locations self')(fst nd \<mapsto> neighbor)\<rparr>)
      else if snd nd = Some CLUSTER then self\<lparr>cluster_nodes := cluster_nodes self @ [fst nd]\<rparr>
      else self)"

definition initialize :: "MovementManager \<Rightarrow> graph \<Rightarrow> MovementManager" where
  "initialize self g = (foldl (initialize_node g) self (nodes g))\<lparr>initialized := True\<rparr>"

text \<open>The manager as the body of \<^verbatim>\<open>__call__\<close> sees it after its first two lines.\<close>

definition ready :: "world \<Rightarrow> MovementManager" where
  "ready w =
     (if \<not> initialized (movement_manager w)
      then initialize (movement_manager w) (topology_G w)
      else movement_manager w)"

text \<open>Python's truth value of \<^verbatim>\<open>current_location_id\<close>: None and the empty string are false.\<close>

fun truthy :: "node option \<Rightarrow> bool" where
  "truthy None = False"
| "truthy (Some s) = (s \<noteq> [])"

text \<open>
  \<^verbatim>\<open>MovementManager.__call__(sim, routing)\<close>, with the two draws of \<^verbatim>\<open>random.choice\<close>.
  The result is the state after the call, or the exception that ends it.
\<close>

definition MovementManager_call :: "nat \<Rightarrow> nat \<Rightarrow> world \<Rightarrow> py_error + world" where
  "MovementManager_call r1 r2 w =
     (let self = ready w;
          w1 = w\<lparr>movement_manager := self\<rparr>
      in if mobile_nodes self = [] then Inr w1
         else case random_choice r1 (mobile_nodes self) of
           Inl e \<Rightarrow> Inl e
         | Inr node_to_move \<Rightarrow>
            (let current_location_id = node_locations self node_to_move;
                 possible_new_locations =
                   filter (\<lambda>c. Some c \<noteq> current_location_id) (cluster_nodes self)
             in if possible_new_locations = [] then Inr w1
                else case random_choice r2 possible_new_locations of
                  Inl e \<Rightarrow> Inl e
                | Inr new_location_id \<Rightarrow>
                   (let (status, ai) = check_node_movement (ai_monitor self) node_to_move (env_now w);
                        log = simulation_log w @
                              [MOVE (env_now w) node_to_move current_location_id new_location_id status]
                    in case (case current_location_id of
                               Some cur \<Rightarrow>
                                 if truthy current_location_id \<and> has_edge (topology_G w) node_to_move cur
                                 then remove_edge (topology_G w) node_to_move cur
                                 else Inr (topology_G w)
                             | None \<Rightarrow> Inr (topology_G w)) of
                         Inl e \<Rightarrow> Inl e
                       | Inr g1 \<Rightarrow>
                           Inr (w\<lparr>topology_G := add_edge g1 node_to_move new_location_id (5, 2),
                                  simulation_log := log,
                                  invalid_cache_value := True,
                                  movement_manager :=
                                    self\<lparr>ai_monitor := ai,
                                         node_locations :=
                                           (node_locations self)(node_to_move \<mapsto> new_location_id)\<rparr>\<rparr>))))"

text \<open>The node and the cluster a call picks with draws \<open>r1\<close> and \<open>r2\<close>.\<close>

definition node_to_move :: "nat \<Rightarrow> world \<Rightarrow> node" where
  "node_to_move r1 w = mobile_nodes (ready w) ! (r1 mod length (mobile_nodes (ready w)))"

definition possible_new_locations :: "nat \<Rightarrow> world \<Rightarrow> node list" where
  "possible_new_locations r1 w =
     filter (\<lambda>c. Some c \<noteq> node_locations (ready w) (node_to_move r1 w)) (cluster_nodes (ready w))"

definition new_location_id :: "nat \<Rightarrow> nat \<Rightarrow> world \<Rightarrow> node" where
  "new_location_id r1 r2 w =
     possible_new_locations r1 w ! (r2 mod length (possible_new_locations r1 w))"

subsection \<open>Seeds and keys\<close>

text \<open>
  \<^verbatim>\<open>hashlib.sha256(..).hexdigest()\<close> is library code; it is modelled by SHA-256 as FIPS 180-4
  defines it, over 32-bit words, with the digest printed in lower-case hexadecimal.
\<close>

type_synonym byte = "8 word"
type_synonym word32 = "32 word"

definition sha256_K :: "word32 list" where
  "sha256_K =
    [0x428A2F98, 0x71374491, 0xB5C0FBCF, 0xE9B5DBA5, 0x3956C25B, 0x59F111F1, 0x923F82A4, 0xAB1C5ED5,
     0xD807AA98, 0x12835B01, 0x243185BE, 0x550C7DC3, 0x72BE5D74, 0x80DEB1FE, 0x9BDC06A7, 0xC19BF174,
     0xE49B69C1, 0xEFBE4786, 0x0FC19DC6, 0x240CA1CC, 0x2DE92C6F, 0x4A7484AA, 0x5CB0A9DC, 0x76F988DA,
     0x983E5152, 0xA831C66D, 0xB00327C8, 0xBF597FC7, 0xC6E00BF3, 0xD5A79147, 0x06CA6351, 0x14292967,
     0x27B70A85, 0x2E1B2138, 0x4D2C6DFC, 0x53380D13, 0x650A7354, 0x766A0ABB, 0x81C2C92E, 0x92722C85,
     0xA2BFE8A1, 0xA81A664B, 0xC24B8B70, 0xC76C51A3, 0xD192E819, 0xD6990624, 0xF40E3585, 0x106AA070,
     0x19A4C116, 0x1E376C08, 0x2748774C, 0x34B0BCB5, 0x391C0CB3, 0x4ED8AA4A, 0x5B9CCA4F, 0x682E6FF3,
     0x748F82EE, 0x78A5636F, 0x84C87814, 0x8CC70208, 0x90BEFFFA, 0xA4506CEB, 0xBEF9A3F7, 0xC67178F2]"

definition sha256_H0 :: "word32 list" where
  "sha256_H0 =
    [0x6A09E667, 0xBB67AE85, 0x3C6EF372, 0xA54FF53A, 0x510E527F, 0x9B05688C, 0x1F83D9AB, 0x5BE0CD19]"

definition Ch :: "word32 \<Rightarrow> word32 \<Rightarrow> word32 \<Rightarrow> word32" where
  "Ch x y z = (x AND y) XOR (NOT x AND z)"

definition Maj :: "word32 \<Rightarrow> word32 \<Rightarrow> word32 \<Rightarrow> word32" where
  "Maj x y z = (x AND y) XOR (x AND z) XOR (y AND z)"

definition Sigma0 :: "word32 \<Rightarrow> word32" where
  "Sigma0 x = word_rotr 2 x XOR word_rotr 13 x XOR word_rotr 22 x"

definition Sigma1 :: "word32 \<Rightarrow> word32" where
  "Sigma1 x = word_rotr 6 x XOR word_rotr 11 x XOR word_rotr 25 x"

definition sigma0 :: "word32 \<Rightarrow> word32" where
  "sigma0 x = word_rotr 7 x XOR word_rotr 18 x XOR drop_bit 3 x"

definition sigma1 :: "word32 \<Rightarrow> word32" where
  "sigma1 x = word_rotr 17 x XOR word_rotr 19 x XOR drop_bit 10 x"

text \<open>Padding: the byte 0x80, zeros up to 56 modulo 64, the bit length in 8 bytes, big-endian.\<close>

definition be_bytes64 :: "64 word \<Rightarrow> byte list" where
  "be_bytes64 w = map (\<lambda>i. ucast (drop_bit (8 * (7 - i)) w)) [0..<8]"

definition be_bytes32 :: "word32 \<Rightarrow> byte list" where
  "be_bytes32 w = map (\<lambda>i. ucast (drop_bit (8 * (3 - i)) w)) [0..<4]"

definition sha256_pad :: "byte list \<Rightarrow> byte list" where
  "sha256_pad msg =
     msg @ [0x80] @ replicate ((119 - length msg mod 64) mod 64) 0 @ be_bytes64 (word_of_nat (8 * length msg))"

definition be_word :: "byte list \<Rightarrow> word32" where
  "be_word bs = foldl (\<lambda>w b. push_bit 8 w OR ucast b) 0 bs"

fun chunks :: "nat \<Rightarrow> 'a list \<Rightarrow> 'a list list" where
  "chunks n xs = (if n = 0 \<or> xs = [] then [] else take n xs # chunks n (drop n xs))"

declare chunks.simps [simp del]

fun schedule :: "nat \<Rightarrow> word32 list \<Rightarrow> word32 list" where
  "schedule 0 w = w"
| "schedule (Suc k) w =
     (let t = length w
      in schedule k (w @ [sigma1 (w ! (t - 2)) + w ! (t - 7) + sigma0 (w ! (t - 15)) + w ! (t - 16)]))"

fun round256 :: "word32 list \<Rightarrow> word32 \<times> word32 \<Rightarrow> word32 list" where
  "round256 [a, b, c, d, e, f, g, h] (k, w) =
     (let T1 = h + Sigma1 e + Ch e f g + k + w;
          T2 = Sigma0 a + Maj a b c
      in [T1 + T2, a, b, c, d + T1, e, f, g])"
| "round256 s _ = s"

definition compress :: "word32 list \<Rightarrow> byte list \<Rightarrow> word32 list" where
  "compress H block =
     (let w = schedule 48 (map be_word (chunks 4 block))
      in map2 (+) H (foldl round256 H (zip sha256_K w)))"

definition sha256 :: "byte list \<Rightarrow> byte list" where
  "sha256 msg = concat (map be_bytes32
                     (foldl compress sha256_H0 (chunks 64 (sha256_pad msg))))"

definition hex_digit :: "nat \<Rightarrow> char" where
  "hex_digit n = ''0123456789abcdef'' ! (n mod 16)"

definition hexdigest :: "byte list \<Rightarrow> string" where
  "hexdigest bs = concat (map (\<lambda>b. [hex_digit (unat b div 16), hex_digit (unat b mod 16)]) bs)"

text \<open>\<^verbatim>\<open>seed.encode()\<close>: the seed is ASCII, one byte per character.\<close>

definition encode :: "string \<Rightarrow> byte list" where
  "encode s = map (\<lambda>c. of_char c) s"

text \<open>\<^verbatim>\<open>string.ascii_letters + string.digits\<close>.\<close>

definition alphabet :: string where
  "alphabet = ''abcdefghijklmnopqrstuvwxyzABCDEFGHIJKLMNOPQRSTUVWXYZ0123456789''"

text \<open>
  \<^verbatim>\<open>generate_seed(length)\<close>: \<^verbatim>\<open>random.choices(alphabet, k=length)\<close> makes \<open>length\<close> independent
  draws; \<open>rnd i\<close> is the number drawn for position \<open>i\<close>.
\<close>

definition generate_seed :: "(nat \<Rightarrow> nat) \<Rightarrow> nat \<Rightarrow> string" where
  "generate_seed rnd len = map (\<lambda>i. alphabet ! (rnd i mod length alphabet)) [0..<len]"

definition derive_key :: "string \<Rightarrow> string" where
  "derive_key seed = take 8 (hexdigest (sha256 (encode seed)))"

text \<open>\<^verbatim>\<open>RekeyingManager.__call__(sim)\<close>; the default seed length is 8.\<close>

definition RekeyingManager_call :: "(nat \<Rightarrow> nat) \<Rightarrow> world \<Rightarrow> world" where
  "RekeyingManager_call rnd w =
     (let seed = generate_seed rnd 8;
          derived = derive_key seed
      in w\<lparr>simulation_log := simulation_log w @ [REKEY (env_now w) seed derived]\<rparr>)"

subsection \<open>\<^verbatim>\<open>run_simulation\<close>: the topology, the initial log and the monitors\<close>

definition cluster_names :: "node list" where
  "cluster_names = [''cluster_1'', ''cluster_2'', ''cluster_3'']"

definition mobile_node_names :: "node list" where
  "mobile_node_names = [''iot_0'', ''iot_1'', ''iot_2'', ''iot_3'', ''iot_4'']"

text \<open>The leader, and the three clusters each linked to it (the first loop).\<close>

definition leader_topology :: graph where
  "leader_topology =
     foldl (\<lambda>g cluster_name. add_edge (add_node g cluster_name CLUSTER) ''area_leader'' cluster_name (10, 1))
           (add_node empty_graph ''area_leader'' LEADER) cluster_names"

text \<open>
  One iteration of the second loop: the mobile node \<open>name\<close> starts at the cluster that
  \<^verbatim>\<open>random.choice(cluster_names)\<close> draws (the list has three elements, so the call does not
  raise), and its INITIAL record is logged.
\<close>

definition place_mobile :: "graph \<times> event list \<Rightarrow> node \<times> nat \<Rightarrow> graph \<times> event list" where
  "place_mobile st nr =
     (let start_cluster = cluster_names ! (snd nr mod length cluster_names)
      in (add_edge (add_node (fst st) (fst nr) MOBILE) (fst nr) start_cluster (5, 2),
          snd st @ [INITIAL 0 (fst nr) start_cluster]))"

text \<open>
  The state in which \<^verbatim>\<open>sim.run\<close> starts; \<open>rnd i\<close> is the draw for the mobile node number
  \<open>i\<close>.  The flag of the router is taken as unset before the first move.
\<close>

definition run_simulation_setup :: "(nat \<Rightarrow> nat) \<Rightarrow> world" where
  "run_simulation_setup rnd =
     (let st = foldl place_mobile (leader_topology, [])
                 (map (\<lambda>i. (mobile_node_names ! i, rnd i)) [0..<length mobile_node_names])
      in \<lparr>topology_G = fst st, env_now = 0, simulation_log = snd st, invalid_cache_value = False,
          movement_manager = MovementManager_init AI_Monitor_init\<rparr>)"

text \<open>
  The driver invokes the two monitors at the times its schedule gives; each invocation
  runs to completion.  A tick carries the time of the invocation and its random draws.
\<close>

datatype invocation = MoveTick time nat nat | RekeyTick time "nat \<Rightarrow> nat"

fun tick :: "invocation \<Rightarrow> world \<Rightarrow> py_error + world" where
  "tick (MoveTick t r1 r2) w = MovementManager_call r1 r2 (w\<lparr>env_now := t\<rparr>)"
| "tick (RekeyTick t rnd) w = Inr (RekeyingManager_call rnd (w\<lparr>env_now := t\<rparr>))"

fun run :: "invocation list \<Rightarrow> world \<Rightarrow> py_error + world" where
  "run [] w = Inr w"
| "run (s # ss) w = (case tick s w of Inl e \<Rightarrow> Inl e | Inr w' \<Rightarrow> run ss w')"

text \<open>
  The graph after the removal step of a move: the edge to the current location goes when
  that location is a non-empty identifier and the edge exists.
\<close>

definition detach :: "graph \<Rightarrow> node \<Rightarrow> node option \<Rightarrow> graph" where
  "detach g n cur =
     (case cur of
        Some c \<Rightarrow> if c \<noteq> [] \<and> has_edge g n c
                  then g\<lparr>edges := filter (\<lambda>e. \<not> joins n c e) (edges g)\<rparr> else g
      | None \<Rightarrow> g)"

text \<open>The state after an invocation that performs a move.\<close>

definition moved :: "nat \<Rightarrow> nat \<Rightarrow> world \<Rightarrow> world" where
  "moved r1 r2 w =
     (let self = ready w; n = node_to_move r1 w; cur = node_locations self n;
          new = new_location_id r1 r2 w;
          res = check_node_movement (ai_monitor self) n (env_now w)
      in w\<lparr>topology_G := add_edge (detach (topology_G w) n cur) n new (5, 2),
            simulation_log := simulation_log w @ [MOVE (env_now w) n cur new (fst res)],
            invalid_cache_value := True,
            movement_manager := self\<lparr>ai_monitor := snd res,
                                      node_locations := (node_locations self)(n \<mapsto> new)\<rparr>\<rparr>)"

text \<open>
  The manager agrees with the graph: every mobile node it knows has type MOBILE and
  exactly one attachment edge, to the cluster the Location Map gives; every cluster it
  knows has type CLUSTER; identifiers of clusters are non-empty strings.
\<close>

definition consistent :: "MovementManager \<Rightarrow> graph \<Rightarrow> bool" where
  "consistent self g =
     (list_all (\<lambda>n. node_type g n = Some MOBILE \<and>
                    (case node_locations self n of
                       None \<Rightarrow> False
                     | Some c \<Rightarrow> c \<noteq> [] \<and> attachments g n = [c]))
               (mobile_nodes self) \<and>
      list_all (\<lambda>c. node_type g c = Some CLUSTER \<and> c \<noteq> []) (cluster_nodes self))"

text \<open>A world in which nothing has run yet, over a given graph.\<close>

definition fresh_world :: "graph \<Rightarrow> world" where
  "fresh_world g =
     \<lparr>topology_G = g, env_now = 0, simulation_log = [], invalid_cache_value = False,
      movement_manager = MovementManager_init AI_Monitor_init\<rparr>"

definition single_cluster_graph :: graph where
  "single_cluster_graph =
     add_edge (add_node (add_node empty_graph ''cluster_1'' CLUSTER) ''iot_0'' MOBILE)
       ''iot_0'' ''cluster_1'' (5, 2)"

definition isolated_mobile_graph :: graph where
  "isolated_mobile_graph =
     add_node (add_node (add_node empty_graph ''cluster_1'' CLUSTER) ''cluster_2'' CLUSTER)
       ''iot_0'' MOBILE"

text \<open>The unordered pair of nodes an edge joins.\<close>

definition ends :: "node \<times> node \<times> edge_attrs \<Rightarrow> node set" where
  "ends e = {fst e, fst (snd e)}"

text \<open>At most one edge between any two nodes.\<close>

definition simple_graph :: "graph \<Rightarrow> bool" where
  "simple_graph g = distinct (map ends (edges g))"

text \<open>A mobile node with edges to two clusters.\<close>

definition double_attached_graph :: graph where
  "double_attached_graph =
     add_edge
       (add_edge
          (add_node (add_node (add_node empty_graph ''cluster_1'' CLUSTER) ''cluster_2'' CLUSTER)
             ''iot_0'' MOBILE)
          ''iot_0'' ''cluster_1'' (5, 2))
       ''iot_0'' ''cluster_2'' (7, 7)"

text \<open>The cluster that \<^verbatim>\<open>random.choice(cluster_names)\<close> draws with the number \<open>r\<close>.\<close>

definition start_cluster :: "nat \<Rightarrow> node" where
  "start_cluster r = cluster_names ! (r mod length cluster_names)"

text \<open>The mobile nodes with their draws, in the order of the second loop.\<close>

definition placed :: "(nat \<Rightarrow> nat) \<Rightarrow> (node \<times> nat) list" where
  "placed rnd = map (\<lambda>i. (mobile_node_names ! i, rnd i)) [0..<length mobile_node_names]"

text \<open>
  Replaying the log: the placement a record establishes, the placement after a whole
  log, and the check that every record fits the placement its predecessors establish
  (an INITIAL record is at time 0 and is the first record of its node; the \<open>from\<close> of a MOVE
  record is the location its node has at that point).
\<close>

fun place_event :: "(node \<rightharpoonup> node) \<Rightarrow> event \<Rightarrow> (node \<rightharpoonup> node)" where
  "place_event loc (INITIAL t n c) = loc(n \<mapsto> c)"
| "place_event loc (MOVE t n from to st) = loc(n \<mapsto> to)"
| "place_event loc (REKEY t seed key) = loc"

definition placement :: "event list \<Rightarrow> (node \<rightharpoonup> node)" where
  "placement lg = foldl place_event Map.empty lg"

fun event_ok :: "(node \<rightharpoonup> node) \<Rightarrow> event \<Rightarrow> bool" where
  "event_ok loc (INITIAL t n c) = (t = 0 \<and> loc n = None)"
| "event_ok loc (MOVE t n from to st) = (loc n \<noteq> None \<and> from = loc n)"
| "event_ok loc (REKEY t seed key) = True"

fun log_ok :: "(node \<rightharpoonup> node) \<Rightarrow> event list \<Rightarrow> bool" where
  "log_ok loc [] = True"
| "log_ok loc (e # es) = (event_ok loc e \<and> log_ok (place_event loc e) es)"

text \<open>
  The invariant of a run: manager and graph agree, the manager knows the five mobile
  nodes and the three clusters, the log is well formed and replays to the Location Map.
\<close>

definition sound_world :: "world \<Rightarrow> bool" where
  "sound_world w =
     (consistent (ready w) (topology_G w) \<and>
      mobile_nodes (ready w) = mobile_node_names \<and>
      cluster_nodes (ready w) = cluster_names \<and>
      log_ok Map.empty (simulation_log w) \<and>
      list_all (\<lambda>n. placement (simulation_log w) n = node_locations (ready w) n) mobile_node_names)"

subsection \<open>Properties of the classifier\<close>

lemma check_node_movement_eq:
  "check_node_movement self n now =
     (let kept = filter (\<lambda>t. now - t < 300) (history self n @ [now])
      in (if suspicion_threshold self < length kept then ATTACKER else NORMAL,
          self\<lparr>move_counts := (move_counts self)(n \<mapsto> kept)\<rparr>))"
  by (simp add: check_node_movement_def history_def Let_def)

lemma history_check_node_movement:
  "history (snd (check_node_movement self n' t')) n =
     (if n = n' then filter (\<lambda>t. t' - t < 300) (history self n @ [t']) else history self n)"
  by (simp add: check_node_movement_eq Let_def history_def)

lemma threshold_check_node_movement:
  "suspicion_threshold (snd (check_node_movement self n t)) = suspicion_threshold self"
  by (simp add: check_node_movement_eq Let_def)

lemma check_all_append:
  "snd (check_all self (xs @ ys)) = snd (check_all (snd (check_all self xs)) ys)"
  by (induction xs arbitrary: self) (auto simp: case_prod_unfold Let_def)

lemma threshold_check_all:
  "suspicion_threshold (snd (check_all self calls)) = suspicion_threshold self"
  by (induction calls arbitrary: self)
     (auto simp: case_prod_unfold Let_def threshold_check_node_movement)

lemma history_init: "history AI_Monitor_init n = []"
  by (simp add: history_def AI_Monitor_init_def)

lemma window_filter_mono:
  fixes now t' :: int
  assumes "t' \<le> now"
  shows "filter (\<lambda>t. now - t < 300) (filter (\<lambda>t. t' - t < 300) xs) = filter (\<lambda>t. now - t < 300) xs"
proof -
  have "\<And>t. now - t < 300 \<Longrightarrow> t' - t < 300" using assms by linarith
  then show ?thesis by (induction xs) auto
qed

lemma history_window:
  assumes "sorted (map snd calls)" and "\<forall>c \<in> set calls. snd c \<le> now"
  shows "filter (\<lambda>t. now - t < 300) (history (snd (check_all AI_Monitor_init calls)) n) =
         filter (\<lambda>t. now - t < 300) (times_of n calls)"
  using assms
proof (induction calls arbitrary: now rule: rev_induct)
  case Nil
  then show ?case by (simp add: history_init times_of_def)
next
  case (snoc c calls)
  obtain n' t' where c: "c = (n', t')" by (cases c)
  have sorted: "sorted (map snd calls)" and le: "\<forall>d \<in> set calls. snd d \<le> t'"
    using snoc.prems(1) by (auto simp: c sorted_append)
  have t'now: "t' \<le> now" using snoc.prems(2) by (simp add: c)
  have lenow: "\<forall>d \<in> set calls. snd d \<le> now" using snoc.prems(2) by simp
  let ?m = "snd (check_all AI_Monitor_init calls)"
  have st: "snd (check_all AI_Monitor_init (calls @ [c])) = snd (check_node_movement ?m n' t')"
    by (simp add: check_all_append c case_prod_unfold Let_def)
  show ?case
  proof (cases "n = n'")
    case True
    have h: "history (snd (check_node_movement ?m n' t')) n =
          filter (\<lambda>t. t' - t < 300) (history ?m n @ [t'])"
      using True by (simp only: history_check_node_movement refl if_True)
    have "filter (\<lambda>t. now - t < 300) (history (snd (check_node_movement ?m n' t')) n) =
          filter (\<lambda>t. now - t < 300) (history ?m n @ [t'])"
      unfolding h by (rule window_filter_mono[OF t'now])
    also have "\<dots> = filter (\<lambda>t. now - t < 300) (times_of n calls) @ filter (\<lambda>t. now - t < 300) [t']"
      using snoc.IH[OF sorted lenow] by simp
    also have "\<dots> = filter (\<lambda>t. now - t < 300) (times_of n (calls @ [c]))"
      using True by (simp add: times_of_def c)
    finally show ?thesis by (simp only: st)
  next
    case False
    then have "history (snd (check_all AI_Monitor_init (calls @ [c]))) n = history ?m n"
      by (simp only: st history_check_node_movement if_False)
    then show ?thesis
      using snoc.IH[OF sorted lenow] False by (simp add: times_of_def c)
  qed
qed

text \<open>
  Claim C2, for integer times (the Python \<^verbatim>\<open>int\<close> values that the clock of this program
  takes; on them \<open>now - t\<close> is computed exactly, which is not so for Python floats).
  After any sequence of classifier calls with non-decreasing integer times, a further
  call \<open>(n, now)\<close> appends \<open>now\<close> to the history of \<open>n\<close>, drops every stored
  \<open>t\<close> with \<open>now - t \<ge> 300\<close>, stores what remains (which contains \<open>now\<close>), and
  answers ATTACKER exactly when more than 3 entries remain, NORMAL otherwise.  What
  remains is the list of all call times of \<open>n\<close> inside the trailing window.
\<close>

theorem check_node_movement_window:
  fixes calls :: "(node \<times> int) list" and now :: int
  assumes "sorted (map snd (calls @ [(n, now)]))"
  defines "self \<equiv> snd (check_all AI_Monitor_init calls)"
  defines "kept \<equiv> filter (\<lambda>t. \<not> now - t \<ge> 300) (history self n @ [now])"
  shows "check_node_movement self n now =
           (if length kept > 3 then ATTACKER else NORMAL,
            self\<lparr>move_counts := (move_counts self)(n \<mapsto> kept)\<rparr>)
         \<and> now \<in> set kept
         \<and> kept = filter (\<lambda>t. now - t < 300) (times_of n (calls @ [(n, now)]))"
proof -
  have k: "kept = filter (\<lambda>t. now - t < 300) (history self n @ [now])"
    by (simp add: kept_def not_le)
  have thr: "suspicion_threshold self = 3"
    by (simp add: self_def threshold_check_all AI_Monitor_init_def)
  have sorted: "sorted (map snd calls)" and le: "\<forall>c \<in> set calls. snd c \<le> now"
    using assms(1) by (auto simp: sorted_append)
  have "filter (\<lambda>t. now - t < 300) (history self n) = filter (\<lambda>t. now - t < 300) (times_of n calls)"
    unfolding self_def by (rule history_window[OF sorted le])
  then have w: "kept = filter (\<lambda>t. now - t < 300) (times_of n (calls @ [(n, now)]))"
    by (simp add: k times_of_def)
  have "check_node_movement self n now =
           (if length kept > 3 then ATTACKER else NORMAL,
            self\<lparr>move_counts := (move_counts self)(n \<mapsto> kept)\<rparr>)"
    by (simp add: check_node_movement_eq Let_def k thr)
  moreover have "now \<in> set kept" by (simp add: k)
  ultimately show ?thesis using w by blast
qed

text \<open>
  Witness for C2: moves of one node at times 10, 20, 30 and 40 (another node moving in
  between); the fourth call answers ATTACKER.
\<close>

theorem check_node_movement_window_witness:
  "sorted (map snd ([(''iot_0'', 10), (''iot_1'', 15), (''iot_0'', 20), (''iot_0'', 30)] @ [(''iot_0'', 40::int)]))
   \<and> fst (check_node_movement
        (snd (check_all AI_Monitor_init [(''iot_0'', 10), (''iot_1'', 15), (''iot_0'', 20), (''iot_0'', 30)]))
        ''iot_0'' 40) = ATTACKER
   \<and> filter (\<lambda>t. (40::int) - t < 300)
        (times_of ''iot_0'' ([(''iot_0'', 10), (''iot_1'', 15), (''iot_0'', 20), (''iot_0'', 30)] @ [(''iot_0'', 40)]))
      = [10, 20, 30, 40]"
  using check_node_movement_window
    [of "[(''iot_0'', 10), (''iot_1'', 15), (''iot_0'', 20), (''iot_0'', 30)]" "''iot_0''" 40]
  by (simp add: times_of_def)

lemma MovementManager_call_noop:
  assumes "mobile_nodes (ready w) = [] \<or> possible_new_locations r1 w = []"
  shows "MovementManager_call r1 r2 w = Inr (w\<lparr>movement_manager := ready w\<rparr>)"
  using assms
  by (auto simp: MovementManager_call_def Let_def random_choice_def possible_new_locations_def
        node_to_move_def)

lemma MovementManager_call_move:
  assumes "mobile_nodes (ready w) \<noteq> []" and "possible_new_locations r1 w \<noteq> []"
  shows "MovementManager_call r1 r2 w = Inr (moved r1 r2 w)"
  using assms
  by (auto simp: MovementManager_call_def Let_def random_choice_def possible_new_locations_def
        node_to_move_def new_location_id_def moved_def detach_def remove_edge_def
        case_prod_unfold split: option.splits)

lemma node_type_touch: "node_type (touch g x) y = node_type g y"
proof (cases "has_node g x")
  case True
  then show ?thesis by (simp add: touch_def)
next
  case False
  then have none: "map_of (nodes g) x = None"
    by (simp add: has_node_def map_of_eq_None_iff)
  have "map_of (nodes g @ [(x, None)]) y =
          (case map_of (nodes g) y of None \<Rightarrow> (if y = x then Some None else None) | Some k \<Rightarrow> Some k)"
    by (simp add: map_add_def split: option.splits)
  then show ?thesis
    using False none by (auto simp: touch_def node_type_def split: option.splits)
qed

lemma edges_touch: "edges (touch g x) = edges g"
  by (simp add: touch_def)

lemma has_edge_touch: "has_edge (touch g x) u v = has_edge g u v"
  by (simp add: has_edge_def edges_touch)

lemma node_type_add_edge: "node_type (add_edge g u v a) y = node_type g y"
proof -
  have "node_type (add_edge g u v a) y = node_type (touch (touch g u) v) y"
    by (simp add: add_edge_def Let_def node_type_def)
  then show ?thesis by (simp add: node_type_touch)
qed

lemma node_type_detach: "node_type (detach g n cur) y = node_type g y"
  by (simp add: detach_def node_type_def split: option.splits)

lemma has_edge_neighbors: "has_edge g u v = (v \<in> set (neighbors g u))"
  by (auto simp: has_edge_def neighbors_def joins_def list_ex_iff split: if_splits)

lemma neighbors_edges_cong: "edges g = edges g' \<Longrightarrow> neighbors g x = neighbors g' x"
  by (simp add: neighbors_def)

lemma neighbors_add_edge_new:
  assumes "\<not> has_edge g u v"
  shows "neighbors (add_edge g u v a) x =
           neighbors g x @ (if x = u then [v] else if x = v then [u] else [])"
  using assms
  by (simp add: add_edge_def Let_def has_edge_touch edges_touch neighbors_def)

lemma neighbors_add_edge_old:
  assumes "has_edge g u v"
  shows "neighbors (add_edge g u v a) x = neighbors g x"
proof -
  have "concat (map (\<lambda>e. if fst e = x then [fst (snd e)] else if fst (snd e) = x then [fst e] else [])
          (map (\<lambda>e. if joins u v e then (fst e, fst (snd e), a) else e) es)) =
        concat (map (\<lambda>e. if fst e = x then [fst (snd e)] else if fst (snd e) = x then [fst e] else []) es)"
    for es :: "(node \<times> node \<times> edge_attrs) list"
    by (induction es) auto
  then show ?thesis
    using assms by (simp add: add_edge_def Let_def has_edge_touch edges_touch neighbors_def)
qed

lemma neighbors_remove:
  assumes "n \<noteq> c"
  shows "neighbors (g\<lparr>edges := filter (\<lambda>e. \<not> joins n c e) (edges g)\<rparr>) x =
           (if x = n then filter (\<lambda>y. y \<noteq> c) (neighbors g n)
            else if x = c then filter (\<lambda>y. y \<noteq> n) (neighbors g c)
            else neighbors g x)"
proof -
  let ?f = "\<lambda>x (e :: node \<times> node \<times> edge_attrs).
              if fst e = x then [fst (snd e)] else if fst (snd e) = x then [fst e] else []"
  have "concat (map (?f x) (filter (\<lambda>e. \<not> joins n c e) es)) =
          (if x = n then filter (\<lambda>y. y \<noteq> c) (concat (map (?f n) es))
           else if x = c then filter (\<lambda>y. y \<noteq> n) (concat (map (?f c) es))
           else concat (map (?f x) es))" for es
    using assms by (induction es) (auto simp: joins_def)
  then show ?thesis by (simp add: neighbors_def)
qed

lemma neighbors_detach:
  assumes "n \<noteq> c" and "c \<noteq> []" and "has_edge g n c"
  shows "neighbors (detach g n (Some c)) x =
           (if x = n then filter (\<lambda>y. y \<noteq> c) (neighbors g n)
            else if x = c then filter (\<lambda>y. y \<noteq> n) (neighbors g c)
            else neighbors g x)"
  using assms by (simp add: detach_def neighbors_remove)

lemma attachments_cong:
  assumes "neighbors g' x = neighbors g x" and "\<And>y. node_type g' y = node_type g y"
  shows "attachments g' x = attachments g x"
  using assms by (simp add: attachments_def)

lemma node_to_move_in:
  "mobile_nodes (ready w) \<noteq> [] \<Longrightarrow> node_to_move r1 w \<in> set (mobile_nodes (ready w))"
  by (simp add: node_to_move_def)

lemma new_location_id_in:
  "possible_new_locations r1 w \<noteq> [] \<Longrightarrow>
     new_location_id r1 r2 w \<in> set (possible_new_locations r1 w)"
  by (simp add: new_location_id_def)

lemma possible_new_locations_set:
  "set (possible_new_locations r1 w) =
     {c \<in> set (cluster_nodes (ready w)). Some c \<noteq> node_locations (ready w) (node_to_move r1 w)}"
  by (auto simp: possible_new_locations_def)

lemma moved_attachments:
  assumes con: "consistent (ready w) (topology_G w)"
      and mob: "mobile_nodes (ready w) \<noteq> []"
      and pos: "possible_new_locations r1 w \<noteq> []"
  shows "attachments (topology_G (moved r1 r2 w)) (node_to_move r1 w) = [new_location_id r1 r2 w]"
    and "m \<in> set (mobile_nodes (ready w)) \<Longrightarrow> m \<noteq> node_to_move r1 w \<Longrightarrow>
           attachments (topology_G (moved r1 r2 w)) m = attachments (topology_G w) m"
proof -
  let ?g = "topology_G w" and ?n = "node_to_move r1 w" and ?new = "new_location_id r1 r2 w"
  let ?self = "ready w"
  have n_in: "?n \<in> set (mobile_nodes ?self)" by (rule node_to_move_in[OF mob])
  then obtain c where loc: "node_locations ?self ?n = Some c" and c_ne: "c \<noteq> []"
      and att: "attachments ?g ?n = [c]" and n_mob: "node_type ?g ?n = Some MOBILE"
    using con by (auto simp: consistent_def list_all_iff split: option.splits)
  have new_in: "?new \<in> set (cluster_nodes ?self)" and new_c: "?new \<noteq> c"
    using new_location_id_in[OF pos, of r2] loc by (auto simp: possible_new_locations_set)
  have new_cl: "node_type ?g ?new = Some CLUSTER"
    using con new_in by (auto simp: consistent_def list_all_iff)
  have c_cl: "node_type ?g c = Some CLUSTER" and c_nb: "c \<in> set (neighbors ?g ?n)"
  proof -
    have "c \<in> set (attachments ?g ?n)" by (simp add: att)
    then show "node_type ?g c = Some CLUSTER" and "c \<in> set (neighbors ?g ?n)"
      by (auto simp: attachments_def)
  qed
  have n_c: "?n \<noteq> c" using c_cl n_mob by auto
  have n_new: "?n \<noteq> ?new" using new_cl n_mob by auto
  have he: "has_edge ?g ?n c" by (simp add: has_edge_neighbors c_nb)
  let ?g1 = "detach ?g ?n (Some c)"
  have nb1: "neighbors ?g1 x =
           (if x = ?n then filter (\<lambda>y. y \<noteq> c) (neighbors ?g ?n)
            else if x = c then filter (\<lambda>y. y \<noteq> ?n) (neighbors ?g c)
            else neighbors ?g x)" for x
    by (rule neighbors_detach[OF n_c c_ne he])
  have "filter (\<lambda>y. node_type ?g y = Some CLUSTER) (filter (\<lambda>y. y \<noteq> c) (neighbors ?g ?n)) =
        filter (\<lambda>y. y \<noteq> c) (attachments ?g ?n)"
    by (simp add: attachments_def conj_commute)
  then have att1: "filter (\<lambda>y. node_type ?g y = Some CLUSTER) (neighbors ?g1 ?n) = []"
    by (simp add: nb1 att)
  have "?new \<notin> set (neighbors ?g1 ?n)"
  proof
    assume "?new \<in> set (neighbors ?g1 ?n)"
    then have "?new \<in> set (filter (\<lambda>y. node_type ?g y = Some CLUSTER) (neighbors ?g1 ?n))"
      using new_cl by simp
    then show False by (simp add: att1)
  qed
  then have nhe: "\<not> has_edge ?g1 ?n ?new" by (simp add: has_edge_neighbors)
  let ?g2 = "add_edge ?g1 ?n ?new (5, 2)"
  have g2: "topology_G (moved r1 r2 w) = ?g2" by (simp add: moved_def Let_def loc)
  have nb2: "neighbors ?g2 x = neighbors ?g1 x @ (if x = ?n then [?new] else if x = ?new then [?n] else [])" for x
    by (rule neighbors_add_edge_new[OF nhe])
  have ty: "node_type ?g2 y = node_type ?g y" for y
    by (simp add: node_type_add_edge node_type_detach)
  have "attachments ?g2 ?n = filter (\<lambda>y. node_type ?g y = Some CLUSTER) (neighbors ?g1 ?n @ [?new])"
    by (simp add: attachments_def ty nb2)
  then show "attachments (topology_G (moved r1 r2 w)) ?n = [?new]"
    using att1 new_cl by (simp add: g2)
  show "attachments (topology_G (moved r1 r2 w)) m = attachments ?g m"
    if m: "m \<in> set (mobile_nodes ?self)" and ne: "m \<noteq> ?n"
  proof -
    have m_mob: "node_type ?g m = Some MOBILE"
      using con m by (auto simp: consistent_def list_all_iff)
    have "m \<noteq> c" and "m \<noteq> ?new" using m_mob c_cl new_cl by auto
    then have "neighbors ?g2 m = neighbors ?g m" using ne by (simp add: nb2 nb1)
    then have "attachments ?g2 m = attachments ?g m" by (simp add: attachments_def ty)
    then show ?thesis by (simp add: g2)
  qed
qed

lemma moved_consistent:
  assumes con: "consistent (ready w) (topology_G w)"
      and mob: "mobile_nodes (ready w) \<noteq> []"
      and pos: "possible_new_locations r1 w \<noteq> []"
  shows "consistent (movement_manager (moved r1 r2 w)) (topology_G (moved r1 r2 w))"
proof -
  let ?self = "ready w" and ?w' = "moved r1 r2 w"
  let ?n = "node_to_move r1 w" and ?new = "new_location_id r1 r2 w"
  have ty: "node_type (topology_G ?w') y = node_type (topology_G w) y" for y
    by (simp add: moved_def Let_def node_type_add_edge node_type_detach)
  have mm: "mobile_nodes (movement_manager ?w') = mobile_nodes ?self"
      "cluster_nodes (movement_manager ?w') = cluster_nodes ?self"
      "node_locations (movement_manager ?w') = (node_locations ?self)(?n \<mapsto> ?new)"
    by (simp_all add: moved_def Let_def)
  have new_in: "?new \<in> set (cluster_nodes ?self)"
    using new_location_id_in[OF pos, of r2] by (auto simp: possible_new_locations_set)
  then have new_ne: "?new \<noteq> []" using con by (auto simp: consistent_def list_all_iff)
  have "node_type (topology_G ?w') m = Some MOBILE \<and>
          (case ((node_locations ?self)(?n \<mapsto> ?new)) m of
             None \<Rightarrow> False
           | Some c \<Rightarrow> c \<noteq> [] \<and> attachments (topology_G ?w') m = [c])"
    if m: "m \<in> set (mobile_nodes ?self)" for m
  proof -
    have old: "node_type (topology_G w) m = Some MOBILE \<and>
          (case node_locations ?self m of
             None \<Rightarrow> False
           | Some c \<Rightarrow> c \<noteq> [] \<and> attachments (topology_G w) m = [c])"
      using con m by (auto simp: consistent_def list_all_iff)
    show ?thesis
    proof (cases "m = ?n")
      case True
      then show ?thesis
        using old new_ne by (simp add: ty moved_attachments(1)[OF con mob pos])
    next
      case False
      then show ?thesis
        using old by (simp add: ty moved_attachments(2)[OF con mob pos m False] split: option.splits)
    qed
  qed
  moreover have "node_type (topology_G ?w') c = Some CLUSTER \<and> c \<noteq> []"
    if "c \<in> set (cluster_nodes ?self)" for c
    using con that by (auto simp: consistent_def list_all_iff ty)
  ultimately show ?thesis
    by (simp add: consistent_def list_all_iff mm)
qed

lemma initialize_node_fold:
  "mobile_nodes (foldl (initialize_node g) self nds) =
     mobile_nodes self @ map fst (filter (\<lambda>nd. snd nd = Some MOBILE) nds)
   \<and> cluster_nodes (foldl (initialize_node g) self nds) =
     cluster_nodes self @ map fst (filter (\<lambda>nd. snd nd = Some CLUSTER) nds)
   \<and> ai_monitor (foldl (initialize_node g) self nds) = ai_monitor self
   \<and> initialized (foldl (initialize_node g) self nds) = initialized self
   \<and> node_locations (foldl (initialize_node g) self nds) =
       (\<lambda>m. if (m, Some MOBILE) \<in> set nds
            then (case find (\<lambda>c. node_type g c = Some CLUSTER) (neighbors g m) of
                    None \<Rightarrow> node_locations self m | Some c \<Rightarrow> Some c)
            else node_locations self m)"
proof (induction nds arbitrary: self)
  case Nil
  show ?case by simp
next
  case (Cons nd nds)
  obtain n k where nd: "nd = (n, k)" by (cases nd)
  note IH = Cons.IH[of "initialize_node g self nd"]
  note ih = conjunct1[OF IH] conjunct1[OF conjunct2[OF IH]]
    conjunct1[OF conjunct2[OF conjunct2[OF IH]]]
    conjunct1[OF conjunct2[OF conjunct2[OF conjunct2[OF IH]]]]
    conjunct2[OF conjunct2[OF conjunct2[OF conjunct2[OF IH]]]]
  show ?case
    unfolding foldl_Cons ih
    by (auto simp: initialize_node_def nd Let_def fun_eq_iff split: option.splits)
qed

lemma mobile_nodes_initialize:
  "mobile_nodes (initialize self g) =
     mobile_nodes self @ map fst (filter (\<lambda>nd. snd nd = Some MOBILE) (nodes g))"
  by (simp add: initialize_def initialize_node_fold)

lemma cluster_nodes_initialize:
  "cluster_nodes (initialize self g) =
     cluster_nodes self @ map fst (filter (\<lambda>nd. snd nd = Some CLUSTER) (nodes g))"
  by (simp add: initialize_def initialize_node_fold)

lemma ai_monitor_initialize: "ai_monitor (initialize self g) = ai_monitor self"
  by (simp add: initialize_def initialize_node_fold)

lemma initialized_initialize: "initialized (initialize self g)"
  by (simp add: initialize_def)

lemma node_locations_initialize:
  "node_locations (initialize self g) m =
     (if (m, Some MOBILE) \<in> set (nodes g)
      then (case find (\<lambda>c. node_type g c = Some CLUSTER) (neighbors g m) of
              None \<Rightarrow> node_locations self m | Some c \<Rightarrow> Some c)
      else node_locations self m)"
  by (simp add: initialize_def initialize_node_fold)

lemma initialized_ready: "initialized (ready w)"
  by (simp add: ready_def initialized_initialize)

lemma ai_monitor_ready: "ai_monitor (ready w) = ai_monitor (movement_manager w)"
  by (simp add: ready_def ai_monitor_initialize)

lemma ready_initialized: "initialized (movement_manager w) \<Longrightarrow> ready w = movement_manager w"
  by (simp add: ready_def)

lemma node_locations_ready_no_mobile:
  assumes "mobile_nodes (ready w) = []"
  shows "node_locations (ready w) = node_locations (movement_manager w)"
proof (cases "initialized (movement_manager w)")
  case True
  then show ?thesis by (simp add: ready_def)
next
  case False
  then have "filter (\<lambda>nd. snd nd = Some MOBILE) (nodes (topology_G w)) = []"
    using assms by (simp add: ready_def mobile_nodes_initialize)
  then have "(m, Some MOBILE) \<notin> set (nodes (topology_G w))" for m
    by (auto simp: filter_empty_conv)
  then show ?thesis
    using False by (auto simp: ready_def node_locations_initialize fun_eq_iff)
qed

text \<open>
  Claim C8, as amended.  When the manager (after the discovery its first invocation
  runs) has no mobile node, or the node it draws has no cluster other than its current
  one to go to, the invocation returns normally and changes nothing but the manager's
  own discovery: the event log, the graph, the clock and the flag are those of the
  state before, the classifier is untouched, an already initialised manager is
  unchanged altogether, and with no mobile node the Location Map is unchanged too.
\<close>

theorem MovementManager_call_noop_frame:
  assumes "mobile_nodes (ready w) = [] \<or> possible_new_locations r1 w = []"
  shows "MovementManager_call r1 r2 w = Inr (w\<lparr>movement_manager := ready w\<rparr>)
       \<and> ai_monitor (ready w) = ai_monitor (movement_manager w)
       \<and> (initialized (movement_manager w) \<longrightarrow> ready w = movement_manager w)
       \<and> (mobile_nodes (ready w) = [] \<longrightarrow>
            node_locations (ready w) = node_locations (movement_manager w))"
proof (intro conjI impI)
  show "MovementManager_call r1 r2 w = Inr (w\<lparr>movement_manager := ready w\<rparr>)"
    by (rule MovementManager_call_noop[OF assms])
  show "ai_monitor (ready w) = ai_monitor (movement_manager w)"
    by (rule ai_monitor_ready)
  show "ready w = movement_manager w" if "initialized (movement_manager w)"
    using that by (rule ready_initialized)
  show "node_locations (ready w) = node_locations (movement_manager w)"
    if "mobile_nodes (ready w) = []"
    using that by (rule node_locations_ready_no_mobile)
qed

lemma has_edge_add_edge:
  "has_edge (add_edge g u v a) x y = (has_edge g x y \<or> joins x y (u, v, a))"
proof (cases "has_edge g u v")
  case True
  have same: "joins x y (if joins u v e then (fst e, fst (snd e), a) else e) = joins x y e" for e
    by (simp add: joins_def)
  have j: "joins x y (u, v, a) \<Longrightarrow> has_edge g x y"
    using True by (auto simp: joins_def has_edge_def list_ex_iff)
  have "list_ex (joins x y) (map (\<lambda>e. if joins u v e then (fst e, fst (snd e), a) else e) es) =
        list_ex (joins x y) es" for es
    by (induction es) (simp_all only: list.map list_ex_Nil_iff list_ex_Cons_iff same)
  then have "has_edge (add_edge g u v a) x y = has_edge g x y"
    using True by (simp add: add_edge_def Let_def has_edge_touch edges_touch has_edge_def)
  then show ?thesis using j by blast
next
  case False
  then show ?thesis
    by (auto simp: add_edge_def Let_def has_edge_touch edges_touch has_edge_def list_ex_iff)
qed

text \<open>
  Claim C10.  When the drawn mobile node has no entry in the Location Map and there is a
  cluster, the invocation returns normally: every cluster is a candidate, the MOVE
  record has no \<open>from\<close>, the graph only gains the new attachment edge (every edge it
  had is still there), and the Location Map binds the node to the new cluster.
\<close>

theorem MovementManager_call_without_location:
  assumes "mobile_nodes (ready w) \<noteq> []"
      and "node_locations (ready w) (node_to_move r1 w) = None"
      and "cluster_nodes (ready w) \<noteq> []"
  shows "possible_new_locations r1 w = cluster_nodes (ready w)
       \<and> new_location_id r1 r2 w \<in> set (cluster_nodes (ready w))
       \<and> MovementManager_call r1 r2 w =
           Inr (w\<lparr>topology_G := add_edge (topology_G w) (node_to_move r1 w) (new_location_id r1 r2 w) (5, 2),
                  simulation_log := simulation_log w @
                    [MOVE (env_now w) (node_to_move r1 w) None (new_location_id r1 r2 w)
                       (fst (check_node_movement (ai_monitor (ready w)) (node_to_move r1 w) (env_now w)))],
                  invalid_cache_value := True,
                  movement_manager := (ready w)
                    \<lparr>ai_monitor := snd (check_node_movement (ai_monitor (ready w)) (node_to_move r1 w) (env_now w)),
                     node_locations := (node_locations (ready w))(node_to_move r1 w \<mapsto> new_location_id r1 r2 w)\<rparr>\<rparr>)
       \<and> (\<forall>u v. has_edge (topology_G w) u v \<longrightarrow>
              has_edge (add_edge (topology_G w) (node_to_move r1 w) (new_location_id r1 r2 w) (5, 2)) u v)
       \<and> has_edge (add_edge (topology_G w) (node_to_move r1 w) (new_location_id r1 r2 w) (5, 2))
            (node_to_move r1 w) (new_location_id r1 r2 w)"
proof -
  have pos: "possible_new_locations r1 w = cluster_nodes (ready w)"
    using assms(2) by (simp add: possible_new_locations_def)
  then have ne: "possible_new_locations r1 w \<noteq> []" using assms(3) by simp
  have "new_location_id r1 r2 w \<in> set (cluster_nodes (ready w))"
    using new_location_id_in[OF ne, of r2] by (simp add: pos)
  moreover have "MovementManager_call r1 r2 w = Inr (moved r1 r2 w)"
    by (rule MovementManager_call_move[OF assms(1) ne])
  moreover have "detach (topology_G w) (node_to_move r1 w) None = topology_G w"
    by (simp add: detach_def)
  ultimately show ?thesis
    using pos assms(2) by (simp add: moved_def Let_def has_edge_add_edge joins_def)
qed

lemma single_cluster_graph_eq:
  "single_cluster_graph =
     \<lparr>nodes = [(''cluster_1'', Some CLUSTER), (''iot_0'', Some MOBILE)],
      edges = [(''iot_0'', ''cluster_1'', 5, 2)]\<rparr>"
  by (simp add: single_cluster_graph_def add_edge_def add_node_def empty_graph_def touch_def
      has_node_def has_edge_def Let_def joins_def)

lemma ready_single:
  "ready (fresh_world single_cluster_graph) =
    \<lparr>ai_monitor = AI_Monitor_init, mobile_nodes = [''iot_0''], cluster_nodes = [''cluster_1''],
     initialized = True, node_locations = [''iot_0'' \<mapsto> ''cluster_1'']\<rparr>"
  by (simp add: ready_def fresh_world_def MovementManager_init_def initialize_def
      initialize_node_def single_cluster_graph_eq neighbors_def node_type_def Let_def)

text \<open>
  Counterexample to C8 as stated: one cluster, one mobile node attached to it, a manager
  that has not run yet.  The invocation is a no-op (no other cluster to go to), yet the
  Location Map, empty before, binds the node afterwards.
\<close>

theorem noop_changes_location_map:
  "possible_new_locations 0 (fresh_world single_cluster_graph) = []
   \<and> MovementManager_call 0 0 (fresh_world single_cluster_graph) =
       Inr ((fresh_world single_cluster_graph)
             \<lparr>movement_manager := ready (fresh_world single_cluster_graph)\<rparr>)
   \<and> node_locations (movement_manager (fresh_world single_cluster_graph)) ''iot_0'' = None
   \<and> node_locations (ready (fresh_world single_cluster_graph)) ''iot_0'' = Some ''cluster_1''"
proof -
  have p: "possible_new_locations 0 (fresh_world single_cluster_graph) = []"
    by (simp add: possible_new_locations_def node_to_move_def ready_single)
  show ?thesis
    using p MovementManager_call_noop[of "fresh_world single_cluster_graph" 0 0]
    by (simp add: ready_single) (simp add: fresh_world_def MovementManager_init_def)
qed

lemma ready_leader:
  "mobile_nodes (ready (fresh_world leader_topology)) = []"
  by (simp add: ready_def fresh_world_def MovementManager_init_def mobile_nodes_initialize
      leader_topology_def cluster_names_def add_edge_def add_node_def empty_graph_def touch_def
      has_node_def has_edge_def Let_def joins_def)

text \<open>Witness for C8: the leader and its three clusters, no mobile node.\<close>

theorem MovementManager_call_noop_frame_witness:
  "mobile_nodes (ready (fresh_world leader_topology)) = []
   \<and> MovementManager_call 0 0 (fresh_world leader_topology) =
       Inr ((fresh_world leader_topology)\<lparr>movement_manager := ready (fresh_world leader_topology)\<rparr>)
   \<and> node_locations (ready (fresh_world leader_topology)) =
       node_locations (movement_manager (fresh_world leader_topology))"
  using MovementManager_call_noop_frame[of "fresh_world leader_topology" 0 0] ready_leader
  by simp

lemma isolated_mobile_graph_eq:
  "isolated_mobile_graph =
     \<lparr>nodes = [(''cluster_1'', Some CLUSTER), (''cluster_2'', Some CLUSTER), (''iot_0'', Some MOBILE)],
      edges = []\<rparr>"
  by (simp add: isolated_mobile_graph_def add_node_def empty_graph_def has_node_def)

lemma ready_isolated:
  "ready (fresh_world isolated_mobile_graph) =
    \<lparr>ai_monitor = AI_Monitor_init, mobile_nodes = [''iot_0''],
     cluster_nodes = [''cluster_1'', ''cluster_2''],
     initialized = True, node_locations = Map.empty\<rparr>"
  by (simp add: ready_def fresh_world_def MovementManager_init_def initialize_def
      initialize_node_def isolated_mobile_graph_eq neighbors_def node_type_def Let_def)

text \<open>Witness for C10: two clusters and a mobile node with no edge at all.\<close>

theorem MovementManager_call_without_location_witness:
  "mobile_nodes (ready (fresh_world isolated_mobile_graph)) \<noteq> []
   \<and> node_locations (ready (fresh_world isolated_mobile_graph))
        (node_to_move 0 (fresh_world isolated_mobile_graph)) = None
   \<and> cluster_nodes (ready (fresh_world isolated_mobile_graph)) \<noteq> []
   \<and> node_to_move 0 (fresh_world isolated_mobile_graph) = ''iot_0''
   \<and> new_location_id 0 (Suc 0) (fresh_world isolated_mobile_graph) = ''cluster_2''
   \<and> has_edge (add_edge (topology_G (fresh_world isolated_mobile_graph)) ''iot_0'' ''cluster_2'' (5, 2))
        ''iot_0'' ''cluster_2''"
proof -
  have a: "mobile_nodes (ready (fresh_world isolated_mobile_graph)) \<noteq> []"
    and n: "node_to_move 0 (fresh_world isolated_mobile_graph) = ''iot_0''"
    and c: "cluster_nodes (ready (fresh_world isolated_mobile_graph)) \<noteq> []"
    by (simp_all add: ready_isolated node_to_move_def)
  have b: "node_locations (ready (fresh_world isolated_mobile_graph))
        (node_to_move 0 (fresh_world isolated_mobile_graph)) = None"
    by (simp add: ready_isolated)
  have d: "new_location_id 0 (Suc 0) (fresh_world isolated_mobile_graph) = ''cluster_2''"
    by (simp add: new_location_id_def possible_new_locations_def ready_isolated n)
  show ?thesis
    using MovementManager_call_without_location[OF a b c, of "Suc 0"] a b c
    by (simp add: n d)
qed

lemma length_round256: "length (round256 s kw) = length s"
  by (cases "(s, kw)" rule: round256.cases) (simp_all add: Let_def)

lemma length_foldl_round256: "length (foldl round256 s kws) = length s"
  by (induction kws arbitrary: s) (simp_all add: length_round256)

lemma length_compress: "length (compress H block) = length H"
  by (simp add: compress_def Let_def length_foldl_round256)

lemma length_foldl_compress: "length (foldl compress H blocks) = length H"
  by (induction blocks arbitrary: H) (simp_all add: length_compress)

lemma length_concat_be_bytes32: "length (concat (map be_bytes32 ws)) = 4 * length ws"
  by (induction ws) (simp_all add: be_bytes32_def)

lemma length_sha256: "length (sha256 msg) = 32"
  by (simp add: sha256_def length_concat_be_bytes32 length_foldl_compress sha256_H0_def)

lemma length_hexdigest: "length (hexdigest bs) = 2 * length bs"
  by (induction bs) (simp_all add: hexdigest_def)

lemma hex_digit_in: "hex_digit n \<in> set ''0123456789abcdef''"
proof -
  have "n mod 16 < length ''0123456789abcdef''" by simp
  then show ?thesis unfolding hex_digit_def by (rule nth_mem)
qed

lemma set_hexdigest: "set (hexdigest bs) \<subseteq> set ''0123456789abcdef''"
  using hex_digit_in by (auto simp: hexdigest_def)

lemma length_derive_key: "length (derive_key seed) = 8"
  by (simp add: derive_key_def length_hexdigest length_sha256)

lemma set_derive_key: "set (derive_key seed) \<subseteq> set ''0123456789abcdef''"
  using set_hexdigest set_take_subset by (fastforce simp: derive_key_def)

lemma length_generate_seed: "length (generate_seed rnd len) = len"
  by (simp add: generate_seed_def)

lemma set_generate_seed: "set (generate_seed rnd len) \<subseteq> set alphabet"
proof -
  have "alphabet \<noteq> []" by (simp add: alphabet_def)
  then have "alphabet ! (k mod length alphabet) \<in> set alphabet" for k by simp
  then show ?thesis by (auto simp: generate_seed_def)
qed

text \<open>
  Claim C7.  A Rekeying Monitor invocation appends exactly one REKEY record carrying the
  current time, a seed of exactly 8 characters, all letters or digits, and as key the
  first 8 hexadecimal characters of the SHA-256 digest of the seed; the graph, the
  movement manager and the flag of the router are left as they were.
\<close>

theorem RekeyingManager_call_appends_rekey:
  "RekeyingManager_call rnd w =
     w\<lparr>simulation_log := simulation_log w @
          [REKEY (env_now w) (generate_seed rnd 8)
             (take 8 (hexdigest (sha256 (encode (generate_seed rnd 8)))))]\<rparr>
   \<and> length (generate_seed rnd 8) = 8
   \<and> set (generate_seed rnd 8) \<subseteq> set alphabet
   \<and> length (take 8 (hexdigest (sha256 (encode (generate_seed rnd 8))))) = 8
   \<and> set (take 8 (hexdigest (sha256 (encode (generate_seed rnd 8))))) \<subseteq> set ''0123456789abcdef''
   \<and> topology_G (RekeyingManager_call rnd w) = topology_G w
   \<and> movement_manager (RekeyingManager_call rnd w) = movement_manager w
   \<and> invalid_cache_value (RekeyingManager_call rnd w) = invalid_cache_value w"
  using length_derive_key[of "generate_seed rnd 8"] set_derive_key[of "generate_seed rnd 8"]
    set_generate_seed[of rnd 8]
  by (simp add: RekeyingManager_call_def Let_def derive_key_def length_generate_seed)

text \<open>
  The draws that spell the seed ABC12345, and its key as \<^verbatim>\<open>hashlib\<close> computes it.
\<close>

lemma seed_example: "generate_seed (\<lambda>i. [26, 27, 28, 53, 54, 55, 56, 57] ! i) 8 = ''ABC12345''"
  by code_simp

lemma key_example: "take 8 (hexdigest (sha256 (encode ''ABC12345''))) = ''2221aa19''"
  by code_simp

text \<open>Witness for C7: the record that these draws produce at time 120.\<close>

theorem RekeyingManager_call_appends_rekey_witness:
  "simulation_log
     (RekeyingManager_call (\<lambda>i. [26, 27, 28, 53, 54, 55, 56, 57] ! i)
        ((fresh_world leader_topology)\<lparr>env_now := 120\<rparr>)) =
   [REKEY 120 ''ABC12345'' ''2221aa19'']"
  using RekeyingManager_call_appends_rekey
    [of "\<lambda>i. [26, 27, 28, 53, 54, 55, 56, 57] ! i" "(fresh_world leader_topology)\<lparr>env_now := 120\<rparr>"]
  by (simp only: seed_example key_example) (simp add: fresh_world_def)

lemma joins_ends: "joins u v e = (ends e = {u, v})"
  by (auto simp: joins_def ends_def doubleton_eq_iff)

lemma has_edge_ends: "has_edge g u v = ({u, v} \<in> set (map ends (edges g)))"
  by (auto simp: has_edge_def list_ex_iff joins_ends)

lemma ends_add_edge_old:
  assumes "has_edge g u v"
  shows "map ends (edges (add_edge g u v a)) = map ends (edges g)"
proof -
  have "ends (if joins u v e then (fst e, fst (snd e), a) else e) = ends e" for e
    by (simp add: ends_def)
  then show ?thesis
    using assms by (simp add: add_edge_def Let_def has_edge_touch edges_touch comp_def)
qed

lemma ends_add_edge_new:
  assumes "\<not> has_edge g u v"
  shows "map ends (edges (add_edge g u v a)) = map ends (edges g) @ [{u, v}]"
  using assms by (simp add: add_edge_def Let_def has_edge_touch edges_touch ends_def)

lemma simple_graph_add_edge:
  assumes "simple_graph g"
  shows "simple_graph (add_edge g u v a)"
proof (cases "has_edge g u v")
  case True
  then show ?thesis using assms by (simp add: simple_graph_def ends_add_edge_old)
next
  case False
  then show ?thesis
    using assms by (simp add: simple_graph_def ends_add_edge_new has_edge_ends)
qed

lemma simple_graph_detach:
  assumes "simple_graph g"
  shows "simple_graph (detach g n cur)"
  using assms by (auto simp: simple_graph_def detach_def distinct_map_filter split: option.splits)

lemma simple_graph_add_node: "simple_graph (add_node g n k) = simple_graph g"
  by (simp add: simple_graph_def add_node_def)

lemma MovementManager_call_total:
  "MovementManager_call r1 r2 w =
     Inr (if mobile_nodes (ready w) = [] \<or> possible_new_locations r1 w = []
          then w\<lparr>movement_manager := ready w\<rparr> else moved r1 r2 w)"
  using MovementManager_call_noop[of w r1 r2] MovementManager_call_move[of w r1 r2]
  by (cases "mobile_nodes (ready w) = [] \<or> possible_new_locations r1 w = []") auto

lemma tick_total: "\<exists>w'. tick s w = Inr w'"
  by (cases s) (simp_all add: MovementManager_call_total)

lemma run_total: "\<exists>w'. run ticks w = Inr w'"
proof (induction ticks arbitrary: w)
  case Nil
  show ?case by simp
next
  case (Cons s ticks)
  obtain w1 where "tick s w = Inr w1" using tick_total by blast
  then show ?case using Cons.IH[of w1] by simp
qed

lemma run_invariant:
  assumes "P w0"
      and "\<And>s w w'. P w \<Longrightarrow> tick s w = Inr w' \<Longrightarrow> P w'"
      and "run ticks w0 = Inr w"
  shows "P w"
  using assms(1,3)
proof (induction ticks arbitrary: w0)
  case Nil
  then show ?case by simp
next
  case (Cons s ticks)
  obtain w1 where w1: "tick s w0 = Inr w1" using tick_total by blast
  then have "P w1" using assms(2) Cons.prems(1) by blast
  moreover have "run ticks w1 = Inr w" using Cons.prems(2) w1 by simp
  ultimately show ?case by (rule Cons.IH)
qed

lemma simple_graph_tick:
  assumes "simple_graph (topology_G w)" and "tick s w = Inr w'"
  shows "simple_graph (topology_G w')"
proof (cases s)
  case (MoveTick t r1 r2)
  let ?w = "w\<lparr>env_now := t\<rparr>"
  have "simple_graph (topology_G (moved r1 r2 ?w))"
    using assms(1) by (simp add: moved_def Let_def simple_graph_add_edge simple_graph_detach)
  then show ?thesis
    using assms MoveTick by (auto simp: MovementManager_call_total split: if_splits)
next
  case (RekeyTick t rnd)
  then show ?thesis
    using assms by (auto simp: RekeyingManager_call_def Let_def)
qed

lemma simple_graph_leader: "simple_graph leader_topology"
proof -
  have "simple_graph empty_graph" by (simp add: simple_graph_def empty_graph_def)
  then show ?thesis
    by (simp add: leader_topology_def cluster_names_def simple_graph_add_edge
        simple_graph_add_node)
qed

lemma simple_graph_place:
  "simple_graph (fst st) \<Longrightarrow> simple_graph (fst (foldl place_mobile st nrs))"
  by (induction nrs arbitrary: st)
     (simp_all add: place_mobile_def Let_def simple_graph_add_edge simple_graph_add_node)

lemma simple_graph_setup: "simple_graph (topology_G (run_simulation_setup rnd))"
  by (simp add: run_simulation_setup_def Let_def simple_graph_place simple_graph_leader)

lemma edges_add_edge_old:
  assumes "has_edge g u v"
  shows "edges (add_edge g u v a) =
           map (\<lambda>e. if joins u v e then (fst e, fst (snd e), a) else e) (edges g)"
  using assms by (simp add: add_edge_def Let_def has_edge_touch edges_touch)

lemma edges_add_edge_new:
  assumes "\<not> has_edge g u v"
  shows "edges (add_edge g u v a) = edges g @ [(u, v, a)]"
  using assms by (simp add: add_edge_def Let_def has_edge_touch edges_touch)

lemma joins_retag: "joins u v (fst e, fst (snd e), a) = joins u v e"
  by (simp add: joins_def)

lemma attrs_add_edge:
  "\<forall>e \<in> set (edges (add_edge g u v a)). joins u v e \<longrightarrow> snd (snd e) = a"
proof (cases "has_edge g u v")
  case True
  then show ?thesis by (auto simp: edges_add_edge_old joins_retag split: if_splits)
next
  case False
  then show ?thesis by (auto simp: edges_add_edge_new has_edge_def list_ex_iff)
qed

lemma others_add_edge:
  "filter (\<lambda>e. \<not> joins u v e) (edges (add_edge g u v a)) = filter (\<lambda>e. \<not> joins u v e) (edges g)"
proof (cases "has_edge g u v")
  case True
  have "filter (\<lambda>e. \<not> joins u v e) (map (\<lambda>e. if joins u v e then (fst e, fst (snd e), a) else e) es)
        = filter (\<lambda>e. \<not> joins u v e) es" for es
    by (induction es) (simp_all add: joins_retag)
  then show ?thesis using True by (simp only: edges_add_edge_old)
next
  case False
  then show ?thesis by (simp add: edges_add_edge_new joins_def)
qed

lemma nodes_add_edge_old:
  assumes "has_node g u" and "has_node g v"
  shows "nodes (add_edge g u v a) = nodes g"
  using assms by (simp add: add_edge_def Let_def touch_def)

lemma moved_graph:
  "topology_G (moved r1 r2 w) =
     add_edge (detach (topology_G w) (node_to_move r1 w)
                 (node_locations (ready w) (node_to_move r1 w)))
       (node_to_move r1 w) (new_location_id r1 r2 w) (5, 2)"
  by (simp add: moved_def Let_def)

text \<open>
  Claim C5, as amended.  Adding an edge between two nodes that already have one does not
  fail and adds no edge: the pairs joined by the edges, in their order, stay what they
  were, as do the nodes when both ends are nodes of the graph.  After \<^verbatim>\<open>add_edge\<close>, whether
  or not the pair had an edge, the pair has an edge, every edge joining the pair carries
  the new attributes, and the edges of all other pairs are unchanged.  A graph with at
  most one edge per pair keeps that property.  An invocation of the movement manager
  returns normally in every state; when it moves a node to a cluster the node is already
  linked to, it returns the state of the move, in which no edge has been added and the
  edge to the new cluster carries the attributes \<open>(5, 2)\<close>.  Every run of the simulation
  returns normally in a state whose graph has at most one edge per pair.
\<close>

theorem add_edge_keeps_simple_graph:
  fixes w :: world and r1 r2 :: nat
  defines "n \<equiv> node_to_move r1 w"
  defines "g1 \<equiv> detach (topology_G w) n (node_locations (ready w) n)"
  defines "new \<equiv> new_location_id r1 r2 w"
  shows
  "(has_edge g u v \<longrightarrow>
      map ends (edges (add_edge g u v a)) = map ends (edges g)
      \<and> (has_node g u \<and> has_node g v \<longrightarrow> nodes (add_edge g u v a) = nodes g))
   \<and> has_edge (add_edge g u v a) u v
   \<and> (\<forall>e \<in> set (edges (add_edge g u v a)). joins u v e \<longrightarrow> snd (snd e) = a)
   \<and> filter (\<lambda>e. \<not> joins u v e) (edges (add_edge g u v a)) = filter (\<lambda>e. \<not> joins u v e) (edges g)
   \<and> (simple_graph g \<longrightarrow> simple_graph (add_edge g u v a))
   \<and> (\<exists>w'. MovementManager_call r1 r2 w = Inr w')
   \<and> (mobile_nodes (ready w) \<noteq> [] \<and> possible_new_locations r1 w \<noteq> [] \<and> has_edge g1 n new \<longrightarrow>
        MovementManager_call r1 r2 w = Inr (moved r1 r2 w)
        \<and> map ends (edges (topology_G (moved r1 r2 w))) = map ends (edges g1)
        \<and> (\<forall>e \<in> set (edges (topology_G (moved r1 r2 w))). joins n new e \<longrightarrow> snd (snd e) = (5, 2)))
   \<and> (\<exists>w'. run ticks (run_simulation_setup rnd) = Inr w' \<and> simple_graph (topology_G w'))"
proof -
  obtain w' where w': "run ticks (run_simulation_setup rnd) = Inr w'" using run_total by blast
  have "simple_graph (topology_G w')"
    by (rule run_invariant[where P = "\<lambda>w. simple_graph (topology_G w)", OF simple_graph_setup _ w'])
       (rule simple_graph_tick)
  then have r: "\<exists>w'. run ticks (run_simulation_setup rnd) = Inr w' \<and> simple_graph (topology_G w')"
    using w' by blast
  have g: "topology_G (moved r1 r2 w) = add_edge g1 n new (5, 2)"
    by (simp add: moved_graph g1_def n_def new_def)
  have c: "\<exists>w'. MovementManager_call r1 r2 w = Inr w'"
    by (simp add: MovementManager_call_total)
  have m: "mobile_nodes (ready w) \<noteq> [] \<and> possible_new_locations r1 w \<noteq> [] \<and> has_edge g1 n new \<longrightarrow>
        MovementManager_call r1 r2 w = Inr (moved r1 r2 w)
        \<and> map ends (edges (topology_G (moved r1 r2 w))) = map ends (edges g1)
        \<and> (\<forall>e \<in> set (edges (topology_G (moved r1 r2 w))). joins n new e \<longrightarrow> snd (snd e) = (5, 2))"
  proof (intro impI, elim conjE)
    assume a: "mobile_nodes (ready w) \<noteq> []" "possible_new_locations r1 w \<noteq> []" "has_edge g1 n new"
    have 1: "MovementManager_call r1 r2 w = Inr (moved r1 r2 w)"
      by (rule MovementManager_call_move[OF a(1,2)])
    have 2: "map ends (edges (topology_G (moved r1 r2 w))) = map ends (edges g1)"
      by (simp only: g ends_add_edge_old[OF a(3)])
    have 3: "\<forall>e \<in> set (edges (topology_G (moved r1 r2 w))). joins n new e \<longrightarrow> snd (snd e) = (5, 2)"
      unfolding g by (rule attrs_add_edge)
    show "MovementManager_call r1 r2 w = Inr (moved r1 r2 w)
        \<and> map ends (edges (topology_G (moved r1 r2 w))) = map ends (edges g1)
        \<and> (\<forall>e \<in> set (edges (topology_G (moved r1 r2 w))). joins n new e \<longrightarrow> snd (snd e) = (5, 2))"
      using 1 2 3 by blast
  qed
  have h: "has_edge (add_edge g u v a) u v"
    by (simp add: has_edge_add_edge joins_def)
  have e: "has_edge g u v \<longrightarrow>
      map ends (edges (add_edge g u v a)) = map ends (edges g)
      \<and> (has_node g u \<and> has_node g v \<longrightarrow> nodes (add_edge g u v a) = nodes g)"
    by (simp add: ends_add_edge_old nodes_add_edge_old)
  have s: "simple_graph g \<longrightarrow> simple_graph (add_edge g u v a)"
    by (simp add: simple_graph_add_edge)
  show ?thesis
    by (intro conjI) (rule e h attrs_add_edge others_add_edge s c m r)+
qed

lemma double_attached_graph_eq:
  "double_attached_graph =
     \<lparr>nodes = [(''cluster_1'', Some CLUSTER), (''cluster_2'', Some CLUSTER), (''iot_0'', Some MOBILE)],
      edges = [(''iot_0'', ''cluster_1'', 5, 2), (''iot_0'', ''cluster_2'', 7, 7)]\<rparr>"
  by (simp add: double_attached_graph_def add_edge_def add_node_def empty_graph_def touch_def
      has_node_def has_edge_def Let_def joins_def)

lemma ready_double:
  "ready (fresh_world double_attached_graph) =
    \<lparr>ai_monitor = AI_Monitor_init, mobile_nodes = [''iot_0''],
     cluster_nodes = [''cluster_1'', ''cluster_2''],
     initialized = True, node_locations = [''iot_0'' \<mapsto> ''cluster_1'']\<rparr>"
  by (simp add: ready_def fresh_world_def MovementManager_init_def initialize_def
      initialize_node_def double_attached_graph_eq neighbors_def node_type_def Let_def)

lemma double_node: "node_to_move 0 (fresh_world double_attached_graph) = ''iot_0''"
  by (simp add: node_to_move_def ready_double)

lemma double_possible: "possible_new_locations 0 (fresh_world double_attached_graph) = [''cluster_2'']"
  by (simp add: possible_new_locations_def double_node ready_double)

lemma double_new: "new_location_id 0 0 (fresh_world double_attached_graph) = ''cluster_2''"
  by (simp add: new_location_id_def double_possible)

lemma double_detach:
  "detach (topology_G (fresh_world double_attached_graph)) ''iot_0'' (Some ''cluster_1'') =
      \<lparr>nodes = [(''cluster_1'', Some CLUSTER), (''cluster_2'', Some CLUSTER), (''iot_0'', Some MOBILE)],
       edges = [(''iot_0'', ''cluster_2'', 7, 7)]\<rparr>"
  by (simp add: fresh_world_def detach_def double_attached_graph_eq has_edge_def joins_def)

text \<open>
  Counterexample to C5 as stated: the mobile node is linked to both clusters; the move
  from the first to the second adds an edge between a pair that already has one, and the
  invocation returns normally, the edge now carrying the new attributes.
\<close>

theorem add_existing_edge_continues:
  "has_edge (detach (topology_G (fresh_world double_attached_graph)) ''iot_0'' (Some ''cluster_1''))
     ''iot_0'' ''cluster_2''
   \<and> new_location_id 0 0 (fresh_world double_attached_graph) = ''cluster_2''
   \<and> MovementManager_call 0 0 (fresh_world double_attached_graph) =
       Inr (moved 0 0 (fresh_world double_attached_graph))
   \<and> edges (topology_G (moved 0 0 (fresh_world double_attached_graph))) =
       [(''iot_0'', ''cluster_2'', 5, 2)]"
proof -
  let ?w = "fresh_world double_attached_graph"
  have n: "node_to_move 0 ?w = ''iot_0''" by (simp add: node_to_move_def ready_double)
  have p: "possible_new_locations 0 ?w = [''cluster_2'']"
    by (simp add: possible_new_locations_def n ready_double)
  have new: "new_location_id 0 0 ?w = ''cluster_2''" by (simp add: new_location_id_def p)
  have g: "topology_G ?w = double_attached_graph" by (simp add: fresh_world_def)
  have d: "detach double_attached_graph ''iot_0'' (Some ''cluster_1'') =
      \<lparr>nodes = [(''cluster_1'', Some CLUSTER), (''cluster_2'', Some CLUSTER), (''iot_0'', Some MOBILE)],
       edges = [(''iot_0'', ''cluster_2'', 7, 7)]\<rparr>"
    by (simp add: detach_def double_attached_graph_eq has_edge_def joins_def)
  have c: "MovementManager_call 0 0 ?w = Inr (moved 0 0 ?w)"
    by (rule MovementManager_call_move) (simp_all add: ready_double p)
  have e: "edges (topology_G (moved 0 0 ?w)) = [(''iot_0'', ''cluster_2'', 5, 2)]"
    by (simp add: moved_def Let_def n new ready_double g d add_edge_def touch_def has_node_def
        has_edge_def joins_def)
  have h: "has_edge (detach (topology_G ?w) ''iot_0'' (Some ''cluster_1'')) ''iot_0'' ''cluster_2''"
    by (simp add: g d has_edge_def joins_def)
  show ?thesis using h new c e by simp
qed

text \<open>
  Witness for C5: adding the one edge of a graph again, and the move of a node that is
  linked to both clusters.
\<close>

theorem add_edge_keeps_simple_graph_witness:
  "has_edge single_cluster_graph ''iot_0'' ''cluster_1''
   \<and> has_node single_cluster_graph ''iot_0'' \<and> has_node single_cluster_graph ''cluster_1''
   \<and> simple_graph single_cluster_graph
   \<and> map ends (edges (add_edge single_cluster_graph ''iot_0'' ''cluster_1'' (9, 9))) =
       [{''iot_0'', ''cluster_1''}]
   \<and> nodes (add_edge single_cluster_graph ''iot_0'' ''cluster_1'' (9, 9)) = nodes single_cluster_graph
   \<and> (''iot_0'', ''cluster_1'', 9, 9) \<in> set (edges (add_edge single_cluster_graph ''iot_0'' ''cluster_1'' (9, 9)))
   \<and> joins ''iot_0'' ''cluster_1'' (''iot_0'', ''cluster_1'', 9, 9)
   \<and> simple_graph (add_edge single_cluster_graph ''iot_0'' ''cluster_1'' (9, 9))
   \<and> mobile_nodes (ready (fresh_world double_attached_graph)) \<noteq> []
   \<and> possible_new_locations 0 (fresh_world double_attached_graph) \<noteq> []
   \<and> has_edge (detach (topology_G (fresh_world double_attached_graph)) ''iot_0'' (Some ''cluster_1''))
        ''iot_0'' ''cluster_2''
   \<and> MovementManager_call 0 0 (fresh_world double_attached_graph) =
       Inr (moved 0 0 (fresh_world double_attached_graph))
   \<and> map ends (edges (topology_G (moved 0 0 (fresh_world double_attached_graph)))) =
       [{''iot_0'', ''cluster_2''}]"
proof -
  let ?w = "fresh_world double_attached_graph"
  have h: "has_edge single_cluster_graph ''iot_0'' ''cluster_1''"
    by (simp add: single_cluster_graph_eq has_edge_def joins_def)
  have n: "has_node single_cluster_graph ''iot_0''" "has_node single_cluster_graph ''cluster_1''"
    by (simp_all add: single_cluster_graph_eq has_node_def)
  have s: "simple_graph single_cluster_graph"
    by (simp add: single_cluster_graph_eq simple_graph_def)
  have m: "map ends (edges single_cluster_graph) = [{''iot_0'', ''cluster_1''}]"
    by (simp add: single_cluster_graph_eq ends_def)
  have e: "(''iot_0'', ''cluster_1'', 9, 9) \<in> set (edges (add_edge single_cluster_graph ''iot_0'' ''cluster_1'' (9, 9)))"
    by (simp add: single_cluster_graph_eq add_edge_def touch_def has_node_def has_edge_def
        joins_def Let_def)
  have j: "joins ''iot_0'' ''cluster_1'' (''iot_0'', ''cluster_1'', 9, 9)" by (simp add: joins_def)
  have mn: "mobile_nodes (ready ?w) \<noteq> []" by (simp add: ready_double)
  have p: "possible_new_locations 0 ?w \<noteq> []" by (simp add: double_possible)
  have l: "node_locations (ready ?w) ''iot_0'' = Some ''cluster_1''" by (simp add: ready_double)
  have d: "has_edge (detach (topology_G ?w) ''iot_0'' (Some ''cluster_1'')) ''iot_0'' ''cluster_2''"
    by (simp add: double_detach has_edge_def joins_def)
  have de: "map ends (edges (detach (topology_G ?w) ''iot_0'' (Some ''cluster_1''))) =
      [{''iot_0'', ''cluster_2''}]"
    by (simp add: double_detach ends_def)
  show ?thesis
    using add_edge_keeps_simple_graph
      [where g = single_cluster_graph and u = "''iot_0''" and v = "''cluster_1''" and a = "(9, 9)"
         and w = ?w and ?r1.0 = 0 and ?r2.0 = 0 and ticks = "[]" and rnd = "\<lambda>i. i"]
      h n s m e j mn p d de
    by (simp add: double_node double_new l)
qed

lemma start_cluster_in: "start_cluster r \<in> set cluster_names"
proof -
  have "cluster_names \<noteq> []" by (simp add: cluster_names_def)
  then have "r mod length cluster_names < length cluster_names" by simp
  then show ?thesis unfolding start_cluster_def by (rule nth_mem)
qed

lemma place_mobile_new:
  assumes "\<not> has_node g n" and "has_node g c"
      and "\<forall>e \<in> set (edges g). fst e \<noteq> n \<and> fst (snd e) \<noteq> n"
  shows "add_edge (add_node g n MOBILE) n c a =
           \<lparr>nodes = nodes g @ [(n, Some MOBILE)], edges = edges g @ [(n, c, a)]\<rparr>"
proof -
  let ?g = "add_node g n MOBILE"
  have g1: "?g = g\<lparr>nodes := nodes g @ [(n, Some MOBILE)]\<rparr>"
    using assms(1) by (simp add: add_node_def)
  have hn: "has_node ?g n" and hc: "has_node ?g c"
    using assms(2) by (simp_all add: g1 has_node_def)
  have t: "touch (touch ?g n) c = ?g" using hn hc by (simp add: touch_def)
  have "\<not> has_edge ?g n c"
    using assms(3) by (auto simp: g1 has_edge_def list_ex_iff joins_def)
  then show ?thesis by (simp add: add_edge_def t Let_def) (simp add: g1)
qed

lemma place_fold:
  assumes "distinct (map fst nrs)"
      and "\<forall>n \<in> fst ` set nrs. \<not> has_node g n \<and> n \<notin> set cluster_names"
      and "\<forall>e \<in> set (edges g). fst e \<notin> fst ` set nrs \<and> fst (snd e) \<notin> fst ` set nrs"
      and "\<forall>c \<in> set cluster_names. has_node g c"
  shows "foldl place_mobile (g, lg) nrs =
           (\<lparr>nodes = nodes g @ map (\<lambda>nr. (fst nr, Some MOBILE)) nrs,
             edges = edges g @ map (\<lambda>nr. (fst nr, start_cluster (snd nr), (5, 2))) nrs\<rparr>,
            lg @ map (\<lambda>nr. INITIAL 0 (fst nr) (start_cluster (snd nr))) nrs)"
  using assms
proof (induction nrs arbitrary: g lg)
  case Nil
  show ?case by simp
next
  case (Cons nr nrs)
  obtain n r where nr: "nr = (n, r)" by (cases nr)
  let ?c = "start_cluster r"
  let ?g' = "\<lparr>nodes = nodes g @ [(n, Some MOBILE)], edges = edges g @ [(n, ?c, (5, 2))]\<rparr>"
  have c_in: "?c \<in> set cluster_names" by (rule start_cluster_in)
  have step: "place_mobile (g, lg) nr = (?g', lg @ [INITIAL 0 n ?c])"
  proof -
    have "add_edge (add_node g n MOBILE) n ?c (5, 2) = ?g'"
      using Cons.prems c_in by (intro place_mobile_new) (auto simp: nr)
    then show ?thesis by (simp add: place_mobile_def nr Let_def start_cluster_def)
  qed
  have 1: "distinct (map fst nrs)" using Cons.prems(1) by simp
  have 2: "\<forall>m \<in> fst ` set nrs. \<not> has_node ?g' m \<and> m \<notin> set cluster_names"
    using Cons.prems(1,2) by (auto simp: has_node_def nr)
  have 3: "\<forall>e \<in> set (edges ?g'). fst e \<notin> fst ` set nrs \<and> fst (snd e) \<notin> fst ` set nrs"
    using Cons.prems(1,2,3) c_in by (auto simp: nr)
  have 4: "\<forall>c \<in> set cluster_names. has_node ?g' c"
    using Cons.prems(4) by (auto simp: has_node_def)
  show ?case
    unfolding foldl_Cons step Cons.IH[OF 1 2 3 4]
    by (simp add: nr)
qed

lemma leader_topology_eq:
  "leader_topology =
     \<lparr>nodes = [(''area_leader'', Some LEADER), (''cluster_1'', Some CLUSTER),
               (''cluster_2'', Some CLUSTER), (''cluster_3'', Some CLUSTER)],
      edges = [(''area_leader'', ''cluster_1'', 10, 1), (''area_leader'', ''cluster_2'', 10, 1),
               (''area_leader'', ''cluster_3'', 10, 1)]\<rparr>"
  by (simp add: leader_topology_def cluster_names_def add_edge_def add_node_def empty_graph_def
      touch_def has_node_def has_edge_def Let_def joins_def)

lemma map_fst_placed: "map fst (placed rnd) = mobile_node_names"
  by (simp add: placed_def comp_def map_nth)

lemma run_simulation_setup_eq:
  "run_simulation_setup rnd =
     \<lparr>topology_G =
        \<lparr>nodes = nodes leader_topology @ map (\<lambda>nr. (fst nr, Some MOBILE)) (placed rnd),
         edges = edges leader_topology @
                 map (\<lambda>nr. (fst nr, start_cluster (snd nr), (5, 2))) (placed rnd)\<rparr>,
      env_now = 0,
      simulation_log = map (\<lambda>nr. INITIAL 0 (fst nr) (start_cluster (snd nr))) (placed rnd),
      invalid_cache_value = False,
      movement_manager = MovementManager_init AI_Monitor_init\<rparr>"
proof -
  have d: "distinct (map fst (placed rnd))"
    by (simp add: map_fst_placed mobile_node_names_def)
  have f: "fst ` set (placed rnd) = set mobile_node_names"
    using map_fst_placed[of rnd] by (metis set_map)
  have "foldl place_mobile (leader_topology, []) (placed rnd) =
           (\<lparr>nodes = nodes leader_topology @ map (\<lambda>nr. (fst nr, Some MOBILE)) (placed rnd),
             edges = edges leader_topology @
                     map (\<lambda>nr. (fst nr, start_cluster (snd nr), (5, 2))) (placed rnd)\<rparr>,
            [] @ map (\<lambda>nr. INITIAL 0 (fst nr) (start_cluster (snd nr))) (placed rnd))"
    by (rule place_fold[OF d])
       (auto simp: f leader_topology_eq has_node_def mobile_node_names_def cluster_names_def)
  then show ?thesis
    by (simp add: run_simulation_setup_def Let_def placed_def)
qed

lemma neighbors_none:
  assumes "\<forall>e \<in> set es. fst e \<noteq> n \<and> fst (snd e) \<noteq> n"
  shows "concat (map (\<lambda>e. if fst e = n then [fst (snd e)] else if fst (snd e) = n then [fst e] else [])
           es) = []"
  using assms by (induction es) auto

lemma neighbors_placed_list:
  assumes "distinct (map fst nrs)" and "(n, r) \<in> set nrs"
      and "\<forall>nr \<in> set nrs. f (snd nr) \<noteq> n"
  shows "concat (map (\<lambda>e. if fst e = n then [fst (snd e)] else if fst (snd e) = n then [fst e] else [])
           (map (\<lambda>nr. (fst nr, f (snd nr), a)) nrs)) = [f r]"
  using assms
proof (induction nrs)
  case Nil
  then show ?case by simp
next
  case (Cons x nrs)
  show ?case
  proof (cases "x = (n, r)")
    case True
    then have "\<forall>e \<in> set (map (\<lambda>nr. (fst nr, f (snd nr), a)) nrs). fst e \<noteq> n \<and> fst (snd e) \<noteq> n"
      using Cons.prems by (auto simp: image_iff)
    from neighbors_none[OF this] show ?thesis using True by simp
  next
    case False
    then have in': "(n, r) \<in> set nrs" using Cons.prems(2) by simp
    then have "fst x \<noteq> n" using Cons.prems(1) by (auto simp: image_iff)
    moreover have "f (snd x) \<noteq> n" using Cons.prems(3) by simp
    ultimately show ?thesis using Cons.IH in' Cons.prems by simp
  qed
qed

lemma placed_mem: "(n, r) \<in> set (placed rnd) \<Longrightarrow> n \<in> set mobile_node_names"
  using map_fst_placed[of rnd] by (metis fst_conv image_eqI set_map)

lemma mobile_cluster_disjoint: "n \<in> set mobile_node_names \<Longrightarrow> n \<notin> set cluster_names"
  by (auto simp: mobile_node_names_def cluster_names_def)

lemma setup_neighbors:
  assumes "(n, r) \<in> set (placed rnd)"
  shows "neighbors (topology_G (run_simulation_setup rnd)) n = [start_cluster r]"
proof -
  have n: "n \<in> set mobile_node_names" using assms by (rule placed_mem)
  have d: "distinct (map fst (placed rnd))"
    by (simp add: map_fst_placed mobile_node_names_def)
  have l: "\<forall>e \<in> set (edges leader_topology). fst e \<noteq> n \<and> fst (snd e) \<noteq> n"
    using n by (auto simp: leader_topology_eq mobile_node_names_def)
  have s: "\<forall>nr \<in> set (placed rnd). start_cluster (snd nr) \<noteq> n"
    using n start_cluster_in mobile_cluster_disjoint by metis
  let ?f = "\<lambda>e :: node \<times> node \<times> edge_attrs.
              if fst e = n then [fst (snd e)] else if fst (snd e) = n then [fst e] else []"
  have "neighbors (topology_G (run_simulation_setup rnd)) n =
          concat (map ?f (edges leader_topology)) @
          concat (map ?f (map (\<lambda>nr. (fst nr, start_cluster (snd nr), (5, 2))) (placed rnd)))"
    by (simp add: run_simulation_setup_eq neighbors_def del: map_map)
  then show ?thesis
    by (simp only: neighbors_none[OF l] neighbors_placed_list[OF d assms s] append_Nil)
qed

lemma setup_node_type_cluster:
  assumes "c \<in> set cluster_names"
  shows "node_type (topology_G (run_simulation_setup rnd)) c = Some CLUSTER"
  using assms
  by (auto simp: run_simulation_setup_eq node_type_def leader_topology_eq cluster_names_def)

lemma setup_node_type_mobile:
  assumes "n \<in> set mobile_node_names"
  shows "node_type (topology_G (run_simulation_setup rnd)) n = Some MOBILE"
proof -
  have "map_of (nodes leader_topology) n = None"
    using assms by (auto simp: leader_topology_eq mobile_node_names_def)
  moreover have "map_of (map (\<lambda>nr. (fst nr, Some MOBILE)) (placed rnd)) n = Some (Some MOBILE)"
  proof -
    have "n \<in> fst ` set (placed rnd)"
      using assms map_fst_placed[of rnd] by (metis set_map)
    then have "n \<in> dom (map_of (map (\<lambda>nr. (fst nr, Some MOBILE)) (placed rnd)))"
      by (simp add: dom_map_of_conv_image_fst image_image)
    then obtain k where k: "map_of (map (\<lambda>nr. (fst nr, Some MOBILE)) (placed rnd)) n = Some k"
      by blast
    then have "(n, k) \<in> set (map (\<lambda>nr. (fst nr, Some MOBILE)) (placed rnd))"
      by (rule map_of_SomeD)
    then have "k = Some MOBILE" by auto
    then show ?thesis using k by simp
  qed
  ultimately show ?thesis
    by (simp add: run_simulation_setup_eq node_type_def map_add_def)
qed

lemma setup_attachments:
  assumes "(n, r) \<in> set (placed rnd)"
  shows "attachments (topology_G (run_simulation_setup rnd)) n = [start_cluster r]"
  by (simp add: attachments_def setup_neighbors[OF assms] setup_node_type_cluster start_cluster_in)

lemma setup_ready:
  "mobile_nodes (ready (run_simulation_setup rnd)) = mobile_node_names"
  "cluster_nodes (ready (run_simulation_setup rnd)) = cluster_names"
proof -
  let ?w = "run_simulation_setup rnd"
  have u: "\<not> initialized (movement_manager ?w)" "mobile_nodes (movement_manager ?w) = []"
      "cluster_nodes (movement_manager ?w) = []"
    by (simp_all add: run_simulation_setup_eq MovementManager_init_def)
  have m: "filter (\<lambda>nd. snd nd = Some MOBILE) (map (\<lambda>nr. (fst nr, Some MOBILE)) nrs) =
           map (\<lambda>nr. (fst nr, Some MOBILE)) nrs" for nrs :: "(node \<times> nat) list"
    by (induction nrs) auto
  have c: "filter (\<lambda>nd. snd nd = Some CLUSTER) (map (\<lambda>nr. (fst nr, Some MOBILE)) nrs) = []"
    for nrs :: "(node \<times> nat) list"
    by (induction nrs) auto
  show "mobile_nodes (ready ?w) = mobile_node_names"
    using map_fst_placed[of rnd]
    by (simp add: ready_def u mobile_nodes_initialize)
       (simp add: run_simulation_setup_eq leader_topology_eq m comp_def)
  show "cluster_nodes (ready ?w) = cluster_names"
    by (simp add: ready_def u cluster_nodes_initialize)
       (simp add: run_simulation_setup_eq leader_topology_eq c cluster_names_def)
qed

lemma setup_locations:
  assumes "(n, r) \<in> set (placed rnd)"
  shows "node_locations (ready (run_simulation_setup rnd)) n = Some (start_cluster r)"
proof -
  let ?w = "run_simulation_setup rnd"
  have u: "\<not> initialized (movement_manager ?w)"
    by (simp add: run_simulation_setup_eq MovementManager_init_def)
  have "(n, Some MOBILE) \<in> set (nodes (topology_G ?w))"
    using assms by (auto simp: run_simulation_setup_eq image_iff intro!: bexI[of _ "(n, r)"])
  moreover have "find (\<lambda>c. node_type (topology_G ?w) c = Some CLUSTER) (neighbors (topology_G ?w) n) =
      Some (start_cluster r)"
    by (simp add: setup_neighbors[OF assms] setup_node_type_cluster start_cluster_in)
  ultimately show ?thesis
    by (simp add: ready_def u node_locations_initialize)
qed

lemma cluster_names_nonempty: "c \<in> set cluster_names \<Longrightarrow> c \<noteq> []"
  by (auto simp: cluster_names_def)

lemma setup_consistent:
  "consistent (ready (run_simulation_setup rnd)) (topology_G (run_simulation_setup rnd))"
proof -
  let ?w = "run_simulation_setup rnd"
  have "node_type (topology_G ?w) n = Some MOBILE \<and>
        (case node_locations (ready ?w) n of None \<Rightarrow> False
         | Some c \<Rightarrow> c \<noteq> [] \<and> attachments (topology_G ?w) n = [c])"
    if "n \<in> set mobile_node_names" for n
  proof -
    have "n \<in> fst ` set (placed rnd)" using that map_fst_placed[of rnd] by (metis set_map)
    then obtain r where r: "(n, r) \<in> set (placed rnd)" by auto
    show ?thesis
      using cluster_names_nonempty[OF start_cluster_in[of r]]
      by (simp add: setup_node_type_mobile[OF that] setup_locations[OF r] setup_attachments[OF r])
  qed
  moreover have "node_type (topology_G ?w) c = Some CLUSTER \<and> c \<noteq> []"
    if "c \<in> set cluster_names" for c
    using that by (simp add: setup_node_type_cluster cluster_names_nonempty)
  ultimately show ?thesis
    by (simp add: consistent_def list_all_iff setup_ready)
qed

lemma log_ok_append:
  "log_ok loc (xs @ ys) = (log_ok loc xs \<and> log_ok (foldl place_event loc xs) ys)"
  by (induction xs arbitrary: loc) auto

lemma place_initial_other:
  "m \<notin> fst ` set ys \<Longrightarrow>
     foldl place_event l (map (\<lambda>nr. INITIAL 0 (fst nr) (f (snd nr))) ys) m = l m"
  by (induction ys arbitrary: l) auto

lemma initial_log:
  assumes "distinct (map fst nrs)" and "\<forall>n \<in> fst ` set nrs. loc n = None"
  shows "log_ok loc (map (\<lambda>nr. INITIAL 0 (fst nr) (f (snd nr))) nrs)
       \<and> (\<forall>n r. (n, r) \<in> set nrs \<longrightarrow>
            foldl place_event loc (map (\<lambda>nr. INITIAL 0 (fst nr) (f (snd nr))) nrs) n = Some (f r))"
  using assms
proof (induction nrs arbitrary: loc)
  case Nil
  show ?case by simp
next
  case (Cons x nrs)
  obtain a b where x: "x = (a, b)" by (cases x)
  let ?loc = "loc(a \<mapsto> f b)"
  let ?lg = "map (\<lambda>nr. INITIAL 0 (fst nr) (f (snd nr))) nrs"
  have d: "distinct (map fst nrs)" and nx: "a \<notin> fst ` set nrs"
    using Cons.prems(1) by (auto simp: x)
  have none: "\<forall>n \<in> fst ` set nrs. ?loc n = None"
  proof
    fix n assume n: "n \<in> fst ` set nrs"
    then have "n \<noteq> a" using nx by blast
    moreover have "loc n = None" using Cons.prems(2) n by auto
    ultimately show "?loc n = None" by simp
  qed
  have IH1: "log_ok ?loc ?lg"
    and IH2: "\<And>n r. (n, r) \<in> set nrs \<Longrightarrow> foldl place_event ?loc ?lg n = Some (f r)"
    using Cons.IH[OF d none] by blast+
  have keep: "foldl place_event ?loc ?lg a = Some (f b)"
    using place_initial_other[OF nx, of ?loc f] by simp
  have la: "loc a = None" using Cons.prems(2) by (simp add: x)
  have "log_ok loc (map (\<lambda>nr. INITIAL 0 (fst nr) (f (snd nr))) (x # nrs))"
    using IH1 la by (simp add: x)
  moreover have "foldl place_event loc (map (\<lambda>nr. INITIAL 0 (fst nr) (f (snd nr))) (x # nrs)) n =
      Some (f r)" if "(n, r) \<in> set (x # nrs)" for n r
  proof (cases "(n, r) = x")
    case True
    then show ?thesis using keep by (simp add: x)
  next
    case False
    then have "(n, r) \<in> set nrs" using that by simp
    then show ?thesis using IH2 by (simp add: x)
  qed
  ultimately show ?case by blast
qed

lemma setup_log:
  "log_ok Map.empty (simulation_log (run_simulation_setup rnd))"
  "(n, r) \<in> set (placed rnd) \<Longrightarrow>
     placement (simulation_log (run_simulation_setup rnd)) n = Some (start_cluster r)"
proof -
  have d: "distinct (map fst (placed rnd))"
    by (simp add: map_fst_placed mobile_node_names_def)
  have e: "\<forall>n \<in> fst ` set (placed rnd). Map.empty n = (None :: node option)" by simp
  note i = initial_log[OF d e, of start_cluster]
  show "log_ok Map.empty (simulation_log (run_simulation_setup rnd))"
    using i by (simp add: run_simulation_setup_eq)
  show "placement (simulation_log (run_simulation_setup rnd)) n = Some (start_cluster r)"
    if "(n, r) \<in> set (placed rnd)"
    using i that by (simp add: run_simulation_setup_eq placement_def)
qed

lemma sound_world_setup: "sound_world (run_simulation_setup rnd)"
proof -
  let ?w = "run_simulation_setup rnd"
  have "placement (simulation_log ?w) n = node_locations (ready ?w) n"
    if "n \<in> set mobile_node_names" for n
  proof -
    have "n \<in> fst ` set (placed rnd)" using that map_fst_placed[of rnd] by (metis set_map)
    then obtain r where r: "(n, r) \<in> set (placed rnd)" by auto
    show ?thesis by (simp add: setup_log(2)[OF r] setup_locations[OF r])
  qed
  then show ?thesis
    by (simp add: sound_world_def setup_consistent setup_ready setup_log(1) list_all_iff)
qed

lemma ready_env_now [simp]: "ready (w\<lparr>env_now := t\<rparr>) = ready w"
  by (simp add: ready_def)

lemma ready_simulation_log [simp]: "ready (w\<lparr>simulation_log := l\<rparr>) = ready w"
  by (simp add: ready_def)

lemma ready_ready [simp]: "ready (w\<lparr>movement_manager := ready w\<rparr>) = ready w"
  by (simp add: ready_def initialized_initialize)

lemma ready_moved: "ready (moved r1 r2 w) = movement_manager (moved r1 r2 w)"
proof -
  have "initialized (movement_manager (moved r1 r2 w))"
    by (simp add: moved_def Let_def initialized_ready)
  then show ?thesis by (simp only: ready_def not_True_eq_False if_False)
qed

lemma sound_world_moved:
  assumes s: "sound_world w"
  shows "sound_world (moved r1 r2 w)"
proof -
  let ?self = "ready w" and ?w' = "moved r1 r2 w"
  let ?n = "node_to_move r1 w" and ?new = "new_location_id r1 r2 w"
  have con: "consistent ?self (topology_G w)" and mn: "mobile_nodes ?self = mobile_node_names"
    and cn: "cluster_nodes ?self = cluster_names"
    and lo: "log_ok Map.empty (simulation_log w)"
    and pl: "\<And>n. n \<in> set mobile_node_names \<Longrightarrow>
               placement (simulation_log w) n = node_locations ?self n"
    using s by (auto simp: sound_world_def list_all_iff)
  have mob: "mobile_nodes ?self \<noteq> []" by (simp add: mn mobile_node_names_def)
  have n_in: "?n \<in> set mobile_node_names" using node_to_move_in[OF mob, of r1] by (simp add: mn)
  then obtain c where loc: "node_locations ?self ?n = Some c"
    using con mn by (auto simp: consistent_def list_all_iff split: option.splits)
  have "\<exists>x \<in> set cluster_names. x \<noteq> c"
    by (cases "c = ''cluster_1''") (auto simp: cluster_names_def)
  then have pos: "possible_new_locations r1 w \<noteq> []"
    by (auto simp: possible_new_locations_def cn loc filter_empty_conv)
  have c': "consistent (movement_manager ?w') (topology_G ?w')"
    by (rule moved_consistent[OF con mob pos])
  have f: "mobile_nodes (movement_manager ?w') = mobile_node_names"
      "cluster_nodes (movement_manager ?w') = cluster_names"
      "node_locations (movement_manager ?w') = (node_locations ?self)(?n \<mapsto> ?new)"
      "simulation_log ?w' = simulation_log w @
         [MOVE (env_now w) ?n (Some c) ?new (fst (check_node_movement (ai_monitor ?self) ?n (env_now w)))]"
    by (simp_all add: moved_def Let_def mn cn loc)
  have pn: "placement (simulation_log w) ?n = Some c" using pl[OF n_in] loc by simp
  have lo': "log_ok Map.empty (simulation_log ?w')"
    using lo pn by (simp add: f(4) log_ok_append placement_def)
  have pl': "placement (simulation_log ?w') = (placement (simulation_log w))(?n \<mapsto> ?new)"
    by (simp add: f(4) placement_def)
  show ?thesis
    using c' lo' pl by (simp add: sound_world_def ready_moved f(1,2,3) pl' list_all_iff)
qed

lemma sound_world_tick:
  assumes "sound_world w" and "tick s w = Inr w'"
  shows "sound_world w'"
proof (cases s)
  case (MoveTick t r1 r2)
  let ?w = "w\<lparr>env_now := t\<rparr>"
  have s1: "sound_world ?w" using assms(1) by (simp add: sound_world_def)
  have s2: "sound_world (?w\<lparr>movement_manager := ready ?w\<rparr>)"
    using s1 unfolding sound_world_def by (simp only: ready_ready) simp
  show ?thesis
    using assms(2) MoveTick s2 sound_world_moved[OF s1, of r1 r2]
    by (auto simp: MovementManager_call_total split: if_splits)
next
  case (RekeyTick t rnd)
  have "placement (l @ [REKEY a b c]) = placement l" for l a b c
    by (simp add: placement_def)
  then show ?thesis
    using assms RekeyTick
    by (auto simp: RekeyingManager_call_def Let_def sound_world_def log_ok_append)
qed

lemma sound_world_run:
  assumes "run ticks (run_simulation_setup rnd) = Inr w"
  shows "sound_world w"
  by (rule run_invariant[where P = sound_world, OF sound_world_setup _ assms])
     (rule sound_world_tick)

lemma log_prefix_tick:
  assumes "tick s w = Inr w'"
  shows "\<exists>rest. simulation_log w' = simulation_log w @ rest"
proof (cases s)
  case (MoveTick t r1 r2)
  then show ?thesis
    using assms by (auto simp: MovementManager_call_total moved_def Let_def split: if_splits)
next
  case (RekeyTick t rnd)
  then show ?thesis using assms by (auto simp: RekeyingManager_call_def Let_def)
qed

lemma log_prefix_run:
  assumes "run ticks w0 = Inr w"
  shows "\<exists>rest. simulation_log w = simulation_log w0 @ rest"
proof (rule run_invariant[where P = "\<lambda>w. \<exists>rest. simulation_log w = simulation_log w0 @ rest",
      OF _ _ assms])
  show "\<exists>rest. simulation_log w0 = simulation_log w0 @ rest" by simp
next
  fix s w w'
  assume "\<exists>rest. simulation_log w = simulation_log w0 @ rest" and "tick s w = Inr w'"
  then show "\<exists>rest. simulation_log w' = simulation_log w0 @ rest"
    using log_prefix_tick[of s w w'] by auto
qed

lemma setup_log_eq:
  "simulation_log (run_simulation_setup rnd) =
     map (\<lambda>i. INITIAL 0 (mobile_node_names ! i) (cluster_names ! (rnd i mod length cluster_names)))
         [0..<length mobile_node_names]"
  by (simp add: run_simulation_setup_eq placed_def start_cluster_def comp_def)

lemma sound_world_attached:
  assumes "sound_world w" and "n \<in> set mobile_node_names"
  shows "\<exists>c. placement (simulation_log w) n = Some c \<and> node_locations (ready w) n = Some c
            \<and> attachments (topology_G w) n = [c]"
  using assms
  by (auto simp: sound_world_def consistent_def list_all_iff split: option.splits)

text \<open>
  Claim C9.  Every run of the simulation returns normally, in a state whose log is well
  formed: it starts with the INITIAL records of the five mobile nodes, at time 0 and
  naming the clusters drawn for them; every INITIAL record is the first record of its
  node; the \<open>from\<close> of every MOVE record is the location established by the most recent
  earlier record of its node.  Replaying the log gives, for every mobile node, the
  cluster of its one attachment edge in the graph.
\<close>

theorem log_reconstructs_placement:
  "\<exists>w. run ticks (run_simulation_setup rnd) = Inr w
     \<and> log_ok Map.empty (simulation_log w)
     \<and> take (length mobile_node_names) (simulation_log w) =
         map (\<lambda>i. INITIAL 0 (mobile_node_names ! i) (cluster_names ! (rnd i mod length cluster_names)))
             [0..<length mobile_node_names]
     \<and> list_all (\<lambda>n. case placement (simulation_log w) n of
                        None \<Rightarrow> False
                      | Some c \<Rightarrow> attachments (topology_G w) n = [c]) mobile_node_names"
proof -
  obtain w where w: "run ticks (run_simulation_setup rnd) = Inr w" using run_total by blast
  have s: "sound_world w" by (rule sound_world_run[OF w])
  obtain rest where "simulation_log w = simulation_log (run_simulation_setup rnd) @ rest"
    using log_prefix_run[OF w] by blast
  then have t: "take (length mobile_node_names) (simulation_log w) =
         map (\<lambda>i. INITIAL 0 (mobile_node_names ! i) (cluster_names ! (rnd i mod length cluster_names)))
             [0..<length mobile_node_names]"
    by (simp add: setup_log_eq)
  have "list_all (\<lambda>n. case placement (simulation_log w) n of
                        None \<Rightarrow> False
                      | Some c \<Rightarrow> attachments (topology_G w) n = [c]) mobile_node_names"
    unfolding list_all_iff using sound_world_attached[OF s] by fastforce
  then show ?thesis using w s t by (auto simp: sound_world_def)
qed

text \<open>
  Claim C3.  In every state a run of the simulation reaches, each mobile node has exactly
  one attachment edge; a Mobility Monitor invocation there performs a move, of a mobile
  node to a cluster other than its current one, and afterwards the moved node has
  exactly one attachment edge, to the newly chosen cluster, as has every mobile node.
\<close>

theorem move_leaves_one_attachment:
  "\<exists>w w'. run ticks (run_simulation_setup rnd) = Inr w
     \<and> tick (MoveTick t r1 r2) w = Inr w'
     \<and> list_all (\<lambda>m. length (attachments (topology_G w) m) = 1) mobile_node_names
     \<and> node_to_move r1 w \<in> set mobile_node_names
     \<and> new_location_id r1 r2 w \<in> set cluster_names
     \<and> Some (new_location_id r1 r2 w) \<noteq> node_locations (ready w) (node_to_move r1 w)
     \<and> simulation_log w' = simulation_log w @
          [MOVE t (node_to_move r1 w) (node_locations (ready w) (node_to_move r1 w))
             (new_location_id r1 r2 w)
             (fst (check_node_movement (ai_monitor (ready w)) (node_to_move r1 w) t))]
     \<and> attachments (topology_G w') (node_to_move r1 w) = [new_location_id r1 r2 w]
     \<and> list_all (\<lambda>m. length (attachments (topology_G w') m) = 1) mobile_node_names"
proof -
  obtain w where w: "run ticks (run_simulation_setup rnd) = Inr w" using run_total by blast
  have s: "sound_world w" by (rule sound_world_run[OF w])
  let ?w = "w\<lparr>env_now := t\<rparr>"
  have s1: "sound_world ?w" using s by (simp add: sound_world_def)
  have nm: "node_to_move r1 ?w = node_to_move r1 w"
    and pm: "possible_new_locations r1 ?w = possible_new_locations r1 w"
    and nw: "new_location_id r1 r2 ?w = new_location_id r1 r2 w"
    by (simp_all add: node_to_move_def possible_new_locations_def new_location_id_def)
  have con: "consistent (ready w) (topology_G w)" and mn: "mobile_nodes (ready w) = mobile_node_names"
    and cn: "cluster_nodes (ready w) = cluster_names"
    using s by (auto simp: sound_world_def)
  have mob: "mobile_nodes (ready w) \<noteq> []" by (simp add: mn mobile_node_names_def)
  have n_in: "node_to_move r1 w \<in> set mobile_node_names"
    using node_to_move_in[OF mob, of r1] by (simp add: mn)
  obtain c where loc: "node_locations (ready w) (node_to_move r1 w) = Some c"
    using sound_world_attached[OF s n_in] by blast
  have "\<exists>x \<in> set cluster_names. x \<noteq> c"
    by (cases "c = ''cluster_1''") (auto simp: cluster_names_def)
  then have pos: "possible_new_locations r1 w \<noteq> []"
    by (auto simp: possible_new_locations_def cn loc filter_empty_conv)
  have new_in: "new_location_id r1 r2 w \<in> set cluster_names"
    and new_ne: "Some (new_location_id r1 r2 w) \<noteq> node_locations (ready w) (node_to_move r1 w)"
    using new_location_id_in[OF pos, of r2] by (auto simp: possible_new_locations_set cn)
  have call: "tick (MoveTick t r1 r2) w = Inr (moved r1 r2 ?w)"
    using mob pos by (simp add: MovementManager_call_total pm)
  have s': "sound_world (moved r1 r2 ?w)" by (rule sound_world_moved[OF s1])
  have one: "list_all (\<lambda>m. length (attachments (topology_G v) m) = 1) mobile_node_names"
    if "sound_world v" for v
    unfolding list_all_iff using sound_world_attached[OF that] by fastforce
  have att: "attachments (topology_G (moved r1 r2 ?w)) (node_to_move r1 w) = [new_location_id r1 r2 w]"
    using moved_attachments(1)[of ?w r1 r2] con mob pos by (simp add: nm nw pm)
  have lg: "simulation_log (moved r1 r2 ?w) = simulation_log w @
          [MOVE t (node_to_move r1 w) (node_locations (ready w) (node_to_move r1 w))
             (new_location_id r1 r2 w)
             (fst (check_node_movement (ai_monitor (ready w)) (node_to_move r1 w) t))]"
    by (simp add: moved_def Let_def nm nw)
  show ?thesis
    using w call one[OF s] n_in new_in new_ne lg att one[OF s'] by blast
qed

text \<open>Two moves of the node \<open>iot_0\<close>, evaluated.\<close>

lemma run_example:
  "(case run [MoveTick 35 0 0, MoveTick 70 0 1] (run_simulation_setup (\<lambda>i. i)) of
      Inl e \<Rightarrow> False
    | Inr w \<Rightarrow> simulation_log w =
        [INITIAL 0 ''iot_0'' ''cluster_1'', INITIAL 0 ''iot_1'' ''cluster_2'',
         INITIAL 0 ''iot_2'' ''cluster_3'', INITIAL 0 ''iot_3'' ''cluster_1'',
         INITIAL 0 ''iot_4'' ''cluster_2'',
         MOVE 35 ''iot_0'' (Some ''cluster_1'') ''cluster_2'' NORMAL,
         MOVE 70 ''iot_0'' (Some ''cluster_2'') ''cluster_3'' NORMAL]
      \<and> attachments (topology_G w) ''iot_0'' = [''cluster_3''])"
  by code_simp

lemma draw_example:
  "(case run [MoveTick 35 0 0] (run_simulation_setup (\<lambda>i. i)) of
      Inl e \<Rightarrow> False
    | Inr w \<Rightarrow> node_to_move 0 w = ''iot_0'' \<and> new_location_id 0 1 w = ''cluster_3''
        \<and> attachments (topology_G w) ''iot_0'' = [''cluster_2''])"
  by code_simp

text \<open>Witness for C9: the log of that run and the placement it replays to.\<close>

theorem log_reconstructs_placement_witness:
  "\<exists>w. run [MoveTick 35 0 0, MoveTick 70 0 1] (run_simulation_setup (\<lambda>i. i)) = Inr w
     \<and> log_ok Map.empty (simulation_log w)
     \<and> simulation_log w =
        [INITIAL 0 ''iot_0'' ''cluster_1'', INITIAL 0 ''iot_1'' ''cluster_2'',
         INITIAL 0 ''iot_2'' ''cluster_3'', INITIAL 0 ''iot_3'' ''cluster_1'',
         INITIAL 0 ''iot_4'' ''cluster_2'',
         MOVE 35 ''iot_0'' (Some ''cluster_1'') ''cluster_2'' NORMAL,
         MOVE 70 ''iot_0'' (Some ''cluster_2'') ''cluster_3'' NORMAL]
     \<and> placement (simulation_log w) ''iot_0'' = Some ''cluster_3''
     \<and> attachments (topology_G w) ''iot_0'' = [''cluster_3'']"
proof -
  from log_reconstructs_placement[of "[MoveTick 35 0 0, MoveTick 70 0 1]" "\<lambda>i. i"]
  obtain w where w: "run [MoveTick 35 0 0, MoveTick 70 0 1] (run_simulation_setup (\<lambda>i. i)) = Inr w"
    and ok: "log_ok Map.empty (simulation_log w)"
    by blast
  from run_example w have lg: "simulation_log w =
        [INITIAL 0 ''iot_0'' ''cluster_1'', INITIAL 0 ''iot_1'' ''cluster_2'',
         INITIAL 0 ''iot_2'' ''cluster_3'', INITIAL 0 ''iot_3'' ''cluster_1'',
         INITIAL 0 ''iot_4'' ''cluster_2'',
         MOVE 35 ''iot_0'' (Some ''cluster_1'') ''cluster_2'' NORMAL,
         MOVE 70 ''iot_0'' (Some ''cluster_2'') ''cluster_3'' NORMAL]"
    and at: "attachments (topology_G w) ''iot_0'' = [''cluster_3'']"
    by simp_all
  have "placement (simulation_log w) ''iot_0'' = Some ''cluster_3''"
    by (simp add: lg placement_def)
  then show ?thesis using w ok lg at by blast
qed

text \<open>Witness for C3: the second of the two moves, from cluster 2 to cluster 3.\<close>

theorem move_leaves_one_attachment_witness:
  "\<exists>w w'. run [MoveTick 35 0 0] (run_simulation_setup (\<lambda>i. i)) = Inr w
     \<and> tick (MoveTick 70 0 1) w = Inr w'
     \<and> attachments (topology_G w) ''iot_0'' = [''cluster_2'']
     \<and> attachments (topology_G w') ''iot_0'' = [''cluster_3'']"
proof -
  from move_leaves_one_attachment[of "[MoveTick 35 0 0]" "\<lambda>i. i" 70 0 1]
  obtain w w' where w: "run [MoveTick 35 0 0] (run_simulation_setup (\<lambda>i. i)) = Inr w"
    and t: "tick (MoveTick 70 0 1) w = Inr w'"
    and a: "attachments (topology_G w') (node_to_move 0 w) = [new_location_id 0 1 w]"
    by blast
  from draw_example w have "node_to_move 0 w = ''iot_0''" "new_location_id 0 1 w = ''cluster_3''"
      "attachments (topology_G w) ''iot_0'' = [''cluster_2'']"
    by simp_all
  then show ?thesis using w t a by auto
qed

section \<open>Broadcast routing\<close>

text \<open>
  \<^verbatim>\<open>nx.shortest_path(G, source, target)\<close> without a weight is networkx's
  \<^verbatim>\<open>bidirectional_shortest_path\<close>: a breadth-first search from both ends that visits the
  neighbours of a node in adjacency order.  The library is not part of the repository;
  the model follows its code.  The dictionaries \<^verbatim>\<open>pred\<close> and \<^verbatim>\<open>succ\<close> map a visited node to
  the node it was reached from, the two roots to None.
\<close>

type_synonym links = "node \<rightharpoonup> node option"

text \<open>
  The inner loop over the neighbours \<open>w\<close> of a fringe node \<open>v\<close>: a node not yet in
  \<open>this\<close> is linked to \<open>v\<close> and joins the new fringe; a node that the other side has
  already reached ends the search.
\<close>

fun scan :: "links \<Rightarrow> links \<Rightarrow> node \<Rightarrow> node list \<Rightarrow> node list \<Rightarrow> (links \<times> node) + (links \<times> node list)" where
  "scan this other v [] fringe = Inr (this, fringe)"
| "scan this other v (w # ws) fringe =
     (let (this', fringe') =
            (if this w = None then (this(w \<mapsto> Some v), fringe @ [w]) else (this, fringe))
      in if other w \<noteq> None then Inl (this', w) else scan this' other v ws fringe')"

text \<open>The loop over one level of the fringe.\<close>

fun level :: "graph \<Rightarrow> links \<Rightarrow> links \<Rightarrow> node list \<Rightarrow> node list \<Rightarrow> (links \<times> node) + (links \<times> node list)" where
  "level g this other [] fringe = Inr (this, fringe)"
| "level g this other (v # vs) fringe =
     (case scan this other v (neighbors g v) fringe of
        Inl found \<Rightarrow> Inl found
      | Inr (this', fringe') \<Rightarrow> level g this' other vs fringe')"

text \<open>The nodes that have an edge.\<close>

definition endpoints :: "graph \<Rightarrow> node set" where
  "endpoints g = set (concat (map (\<lambda>e. [fst e, fst (snd e)]) (edges g)))"

lemma neighbors_endpoints: "set (neighbors g v) \<subseteq> endpoints g"
  by (auto simp: neighbors_def endpoints_def split: if_splits)

lemma finite_endpoints: "finite (endpoints g)"
  by (simp add: endpoints_def)

lemma scan_Inr:
  assumes "scan this other v ws fr = Inr (this', fr')"
  shows "\<exists>new. fr' = fr @ new \<and> dom this' = dom this \<union> set new \<and> set new \<inter> dom this = {}
              \<and> set new \<subseteq> set ws"
  using assms
proof (induction ws arbitrary: this fr)
  case Nil
  then show ?case by simp
next
  case (Cons w ws)
  show ?case
  proof (cases "this w = None")
    case True
    then have "scan (this(w \<mapsto> Some v)) other v ws (fr @ [w]) = Inr (this', fr')"
      using Cons.prems by (simp split: if_splits)
    from Cons.IH[OF this] obtain new where
      "fr' = (fr @ [w]) @ new" "dom this' = dom (this(w \<mapsto> Some v)) \<union> set new"
      "set new \<inter> dom (this(w \<mapsto> Some v)) = {}" "set new \<subseteq> set ws"
      by blast
    then have "fr' = fr @ (w # new) \<and> dom this' = dom this \<union> set (w # new)
        \<and> set (w # new) \<inter> dom this = {} \<and> set (w # new) \<subseteq> set (w # ws)"
      using True by (auto simp: domIff)
    then show ?thesis by blast
  next
    case False
    then have "scan this other v ws fr = Inr (this', fr')"
      using Cons.prems by (simp split: if_splits)
    from Cons.IH[OF this] show ?thesis by auto
  qed
qed

lemma level_Inr:
  assumes "level g this other vs fr = Inr (this', fr')"
  shows "\<exists>new. fr' = fr @ new \<and> dom this' = dom this \<union> set new \<and> set new \<inter> dom this = {}
              \<and> set new \<subseteq> endpoints g"
  using assms
proof (induction vs arbitrary: this fr)
  case Nil
  then show ?case by simp
next
  case (Cons v vs)
  from Cons.prems obtain this1 fr1 where
    s: "scan this other v (neighbors g v) fr = Inr (this1, fr1)"
    and l: "level g this1 other vs fr1 = Inr (this', fr')"
    by (auto split: sum.splits)
  from scan_Inr[OF s] obtain new1 where n1: "fr1 = fr @ new1" "dom this1 = dom this \<union> set new1"
    "set new1 \<inter> dom this = {}" "set new1 \<subseteq> set (neighbors g v)" by blast
  from Cons.IH[OF l] obtain new2 where n2: "fr' = fr1 @ new2" "dom this' = dom this1 \<union> set new2"
    "set new2 \<inter> dom this1 = {}" "set new2 \<subseteq> endpoints g" by blast
  have "fr' = fr @ (new1 @ new2) \<and> dom this' = dom this \<union> set (new1 @ new2)
      \<and> set (new1 @ new2) \<inter> dom this = {} \<and> set (new1 @ new2) \<subseteq> endpoints g"
    using n1 n2 neighbors_endpoints[of g v] by auto
  then show ?case by blast
qed

lemma level_measure:
  assumes "level g this other vs [] = Inr (this', fr')"
  shows "(fr' = [] \<and> dom this' = dom this) \<or>
         card (endpoints g - dom this') < card (endpoints g - dom this)"
proof -
  from level_Inr[OF assms] obtain new where n: "fr' = new" "dom this' = dom this \<union> set new"
    "set new \<inter> dom this = {}" "set new \<subseteq> endpoints g" by auto
  show ?thesis
  proof (cases "new = []")
    case True
    then show ?thesis using n by simp
  next
    case False
    then obtain x where x: "x \<in> set new" by (cases new) auto
    then have "x \<in> endpoints g - dom this" "x \<notin> endpoints g - dom this'"
      using n by auto
    moreover have "endpoints g - dom this' \<subseteq> endpoints g - dom this" using n by auto
    ultimately have "endpoints g - dom this' \<subset> endpoints g - dom this" by blast
    then show ?thesis
      using finite_endpoints[of g] by (intro disjI2 psubset_card_mono) auto
  qed
qed

text \<open>
  The \<^verbatim>\<open>while forward_fringe and reverse_fringe\<close> loop: the smaller fringe is expanded;
  None stands for leaving the loop, which raises \<^verbatim>\<open>NetworkXNoPath\<close>.
\<close>

function search :: "graph \<Rightarrow> links \<Rightarrow> links \<Rightarrow> node list \<Rightarrow> node list \<Rightarrow> (links \<times> links \<times> node) option" where
  "search g pred succ forward_fringe reverse_fringe =
     (if forward_fringe = [] \<or> reverse_fringe = [] then None
      else if length forward_fringe \<le> length reverse_fringe then
        (case level g pred succ forward_fringe [] of
           Inl (pred', w) \<Rightarrow> Some (pred', succ, w)
         | Inr (pred', forward_fringe') \<Rightarrow> search g pred' succ forward_fringe' reverse_fringe)
      else
        (case level g succ pred reverse_fringe [] of
           Inl (succ', w) \<Rightarrow> Some (pred, succ', w)
         | Inr (succ', reverse_fringe') \<Rightarrow> search g pred succ' forward_fringe reverse_fringe'))"
  by pat_completeness auto
termination
proof (relation "measure (\<lambda>(g, pred, succ, ff, rf).
          2 * (card (endpoints g - dom pred) + card (endpoints g - dom succ)) +
          (if ff \<noteq> [] \<and> rf \<noteq> [] then 1 else 0))", goal_cases)
  case 1
  show ?case by simp
next
  case (2 g pred succ ff rf x2 pred' ff')
  then have "level g pred succ ff [] = Inr (pred', ff')" by simp
  from level_measure[OF this] show ?case using 2 by auto
next
  case (3 g pred succ ff rf x2 succ' rf')
  then have "level g succ pred rf [] = Inr (succ', rf')" by simp
  from level_measure[OF this] show ?case using 3 by auto
qed

text \<open>
  The loops \<^verbatim>\<open>while w is not None: path.append(w); w = links[w]\<close> that rebuild the path.
  A loop of this shape need not end on an arbitrary dictionary, so the result is
  optional, None standing for a loop that does not return.
\<close>

partial_function (option) follow :: "links \<Rightarrow> node option \<Rightarrow> node list \<Rightarrow> (py_error + node list) option" where
  "follow d w path =
     (case w of
        None \<Rightarrow> Some (Inr path)
      | Some x \<Rightarrow> (case d x of
                    None \<Rightarrow> Some (Inl KeyError)
                  | Some nxt \<Rightarrow> follow d nxt (path @ [x])))"

declare follow.simps [code]

text \<open>Consecutive nodes of a walk are joined by an edge of the graph.\<close>

fun walk :: "graph \<Rightarrow> node list \<Rightarrow> bool" where
  "walk g [] = True"
| "walk g [x] = True"
| "walk g (x # y # p) = (has_edge g x y \<and> walk g (y # p))"

text \<open>The nodes met when following the links from \<open>x\<close> to a root.\<close>

inductive chain :: "links \<Rightarrow> node \<Rightarrow> node list \<Rightarrow> bool" where
  root: "d x = Some None \<Longrightarrow> chain d x [x]"
| link: "d x = Some (Some y) \<Longrightarrow> chain d y p \<Longrightarrow> chain d x (x # p)"

lemma chain_follow:
  "chain d x p \<Longrightarrow> follow d (Some x) acc = Some (Inr (acc @ p))"
proof (induction arbitrary: acc rule: chain.induct)
  case (root d x)
  then show ?case by (simp add: follow.simps[of d "Some x"] follow.simps[of d None])
next
  case (link d x y p)
  then show ?case by (simp add: follow.simps[of d "Some x"])
qed

lemma chain_hd: "chain d x p \<Longrightarrow> p \<noteq> [] \<and> hd p = x"
  by (induction rule: chain.induct) auto

lemma chain_dom: "chain d x p \<Longrightarrow> set p \<subseteq> dom d"
  by (induction rule: chain.induct) auto

lemma chain_extend:
  assumes "chain d x p" and "w \<notin> dom d"
  shows "chain (d(w \<mapsto> z)) x p"
  using assms
proof (induction rule: chain.induct)
  case (root d x)
  then have "x \<noteq> w" by auto
  then show ?case using root by (intro chain.root) simp
next
  case (link d x y p)
  then have "x \<noteq> w" by auto
  then have "(d(w \<mapsto> z)) x = Some (Some y)" using link by simp
  then show ?case using link by (intro chain.link) simp_all
qed

lemma has_edge_sym: "has_edge g u v = has_edge g v u"
  by (auto simp: has_edge_def list_ex_iff joins_def)

lemma walk_append:
  "walk g (p @ [x]) \<Longrightarrow> walk g (x # q) \<Longrightarrow> walk g (p @ x # q)"
  by (induction g p rule: walk.induct) auto

lemma walk_snoc:
  "walk g (p @ [x]) \<Longrightarrow> has_edge g x y \<Longrightarrow> walk g (p @ [x, y])"
  by (induction g p rule: walk.induct) auto

lemma walk_rev: "walk g p \<Longrightarrow> walk g (rev p)"
proof (induction g p rule: walk.induct)
  case (3 g x y p)
  then have "walk g (rev p @ [y])" by simp
  then have "walk g (rev p @ [y, x])"
    using 3 by (intro walk_snoc) (auto simp: has_edge_sym)
  then show ?case by simp
qed simp_all

text \<open>Every linked node leads, along edges of the graph, to the root \<open>r\<close>.\<close>

definition link_tree :: "graph \<Rightarrow> links \<Rightarrow> node \<Rightarrow> bool" where
  "link_tree g d r = (\<forall>x \<in> dom d. \<exists>p. chain d x p \<and> last p = r \<and> walk g p)"

lemma link_tree_add:
  assumes t: "link_tree g d r" and v: "v \<in> dom d" and w: "w \<notin> dom d"
      and e: "w \<in> set (neighbors g v)"
  shows "link_tree g (d(w \<mapsto> Some v)) r"
  unfolding link_tree_def
proof
  fix x assume x: "x \<in> dom (d(w \<mapsto> Some v))"
  show "\<exists>p. chain (d(w \<mapsto> Some v)) x p \<and> last p = r \<and> walk g p"
  proof (cases "x = w")
    case True
    obtain p where p: "chain d v p" "last p = r" "walk g p"
      using t v by (auto simp: link_tree_def)
    have hd: "p \<noteq> []" "hd p = v" using chain_hd[OF p(1)] by auto
    then obtain q where q: "p = v # q" by (cases p) auto
    have c: "chain (d(w \<mapsto> Some v)) w (w # p)"
      by (rule chain.link[where y = v]) (simp_all add: chain_extend[OF p(1) w])
    have "has_edge g v w" using e by (simp add: has_edge_neighbors)
    then have "has_edge g w v" using has_edge_sym by blast
    then have "walk g (w # p)" using p(3) by (simp add: q)
    then show ?thesis using c p(2) hd True by auto
  next
    case False
    then have "x \<in> dom d" using x by auto
    then obtain p where p: "chain d x p" "last p = r" "walk g p"
      using t by (auto simp: link_tree_def)
    then show ?thesis using chain_extend[OF p(1) w] by blast
  qed
qed

lemma scan_tree:
  assumes "link_tree g this r" and "v \<in> dom this" and "set ws \<subseteq> set (neighbors g v)"
  shows "(case scan this other v ws fr of
            Inl (this', w) \<Rightarrow> link_tree g this' r \<and> w \<in> dom this' \<and> w \<in> dom other
          | Inr (this', fr') \<Rightarrow> link_tree g this' r)"
  using assms
proof (induction ws arbitrary: this fr)
  case Nil
  then show ?case by simp
next
  case (Cons w ws)
  let ?this' = "if this w = None then this(w \<mapsto> Some v) else this"
  have t': "link_tree g ?this' r"
    using Cons.prems by (auto intro!: link_tree_add simp: domIff)
  have v': "v \<in> dom ?this'" using Cons.prems(2) by auto
  have w': "w \<in> dom ?this'" by (auto simp: domIff)
  have s: "set ws \<subseteq> set (neighbors g v)" using Cons.prems(3) by simp
  show ?case
  proof (cases "other w = None")
    case True
    then have "scan this other v (w # ws) fr =
        scan ?this' other v ws (if this w = None then fr @ [w] else fr)"
      by (simp add: Let_def)
    then show ?thesis using Cons.IH[OF t' v' s] by simp
  next
    case False
    then have "scan this other v (w # ws) fr = Inl (?this', w)"
      by (simp add: Let_def)
    then show ?thesis using t' w' False by (auto simp: domIff)
  qed
qed

lemma level_tree:
  assumes "link_tree g this r" and "set vs \<subseteq> dom this"
  shows "(case level g this other vs fr of
            Inl (this', w) \<Rightarrow> link_tree g this' r \<and> w \<in> dom this' \<and> w \<in> dom other
          | Inr (this', fr') \<Rightarrow> link_tree g this' r)"
  using assms
proof (induction vs arbitrary: this fr)
  case Nil
  then show ?case by simp
next
  case (Cons v vs)
  have v: "v \<in> dom this" using Cons.prems(2) by simp
  note st = scan_tree[OF Cons.prems(1) v subset_refl, of other fr]
  show ?case
  proof (cases "scan this other v (neighbors g v) fr")
    case (Inl found)
    then show ?thesis using st by (auto split: prod.splits)
  next
    case (Inr cont)
    obtain this1 fr1 where c: "cont = (this1, fr1)" by (cases cont)
    have t1: "link_tree g this1 r" using st Inr c by simp
    have "dom this \<subseteq> dom this1"
      using scan_Inr[of this other v "neighbors g v" fr this1 fr1] Inr c by auto
    moreover have "set vs \<subseteq> dom this" using Cons.prems(2) by simp
    ultimately have d1: "set vs \<subseteq> dom this1" by (rule order_trans[rotated])
    show ?thesis using Cons.IH[OF t1 d1, of fr1] Inr c by simp
  qed
qed

lemma search_tree:
  assumes "link_tree g pred s" and "link_tree g succ t"
      and "set ff \<subseteq> dom pred" and "set rf \<subseteq> dom succ"
      and "search g pred succ ff rf = Some (pred', succ', w)"
  shows "link_tree g pred' s \<and> link_tree g succ' t \<and> w \<in> dom pred' \<and> w \<in> dom succ'"
  using assms
proof (induction g pred succ ff rf rule: search.induct)
  case (1 g pred succ ff rf)
  have ne: "ff \<noteq> []" "rf \<noteq> []" using "1.prems"(5) by (auto split: if_splits)
  show ?case
  proof (cases "length ff \<le> length rf")
    case True
    note lt = level_tree[OF "1.prems"(1,3), of succ "[]"]
    show ?thesis
    proof (cases "level g pred succ ff []")
      case (Inl found)
      obtain p1 w1 where f: "found = (p1, w1)" by (cases found)
      have "search g pred succ ff rf = Some (p1, succ, w1)"
        using ne True Inl f by simp
      then show ?thesis using lt Inl f "1.prems"(2,5) by auto
    next
      case (Inr cont)
      obtain p1 f1 where c: "cont = (p1, f1)" by (cases cont)
      from level_Inr[of g pred succ ff "[]" p1 f1] Inr c
      have d: "set f1 \<subseteq> dom p1" "dom pred \<subseteq> dom p1" by auto
      have t1: "link_tree g p1 s" using lt Inr c by simp
      have sr: "search g p1 succ f1 rf = Some (pred', succ', w)"
        using "1.prems"(5) ne True Inr c by simp
      show ?thesis
        using "1.IH"(1)[OF _ True Inr _ t1 "1.prems"(2) d(1) "1.prems"(4) sr] ne c by simp
    qed
  next
    case False
    note lt = level_tree[OF "1.prems"(2,4), of pred "[]"]
    show ?thesis
    proof (cases "level g succ pred rf []")
      case (Inl found)
      obtain s1 w1 where f: "found = (s1, w1)" by (cases found)
      have "search g pred succ ff rf = Some (pred, s1, w1)"
        using ne False Inl f by simp
      then show ?thesis using lt Inl f "1.prems"(1,5) by auto
    next
      case (Inr cont)
      obtain s1 f1 where c: "cont = (s1, f1)" by (cases cont)
      from level_Inr[of g succ pred rf "[]" s1 f1] Inr c
      have d: "set f1 \<subseteq> dom s1" by auto
      have t1: "link_tree g s1 t" using lt Inr c by simp
      have sr: "search g pred s1 ff f1 = Some (pred', succ', w)"
        using "1.prems"(5) ne False Inr c by simp
      show ?thesis
        using "1.IH"(2)[OF _ False Inr _ "1.prems"(1) t1 "1.prems"(3) d sr] ne c by simp
    qed
  qed
qed

text \<open>\<^verbatim>\<open>_bidirectional_pred_succ\<close>.\<close>

definition bidirectional_pred_succ :: "graph \<Rightarrow> node \<Rightarrow> node \<Rightarrow> (links \<times> links \<times> node) option" where
  "bidirectional_pred_succ g source target =
     (if target = source then Some ([target \<mapsto> None], [source \<mapsto> None], source)
      else search g [source \<mapsto> None] [target \<mapsto> None] [source] [target])"

text \<open>The path from the source to the meeting node \<open>w\<close>, then on to the target.\<close>

definition build_path :: "links \<Rightarrow> links \<Rightarrow> node \<Rightarrow> (py_error + node list) option" where
  "build_path pred succ w =
     (case follow pred (Some w) [] of
        None \<Rightarrow> None
      | Some (Inl e) \<Rightarrow> Some (Inl e)
      | Some (Inr collected) \<Rightarrow>
         (let path = rev collected
          in if path = [] then Some (Inl IndexError)
             else case succ (last path) of
                    None \<Rightarrow> Some (Inl KeyError)
                  | Some w' \<Rightarrow> follow succ w' path))"

text \<open>\<^verbatim>\<open>bidirectional_shortest_path\<close>; a node that is not in the graph raises NodeNotFound.\<close>

definition bidirectional_shortest_path :: "graph \<Rightarrow> node \<Rightarrow> node \<Rightarrow> (py_error + node list) option" where
  "bidirectional_shortest_path g source target =
     (if \<not> has_node g source \<or> \<not> has_node g target then Some (Inl NodeNotFound)
      else case bidirectional_pred_succ g source target of
        None \<Rightarrow> Some (Inl NetworkXNoPath)
      | Some (pred, succ, w) \<Rightarrow> build_path pred succ w)"

text \<open>A path of the graph from \<open>s\<close> to \<open>t\<close>.\<close>

definition is_path :: "graph \<Rightarrow> node \<Rightarrow> node \<Rightarrow> node list \<Rightarrow> bool" where
  "is_path g s t p = (p \<noteq> [] \<and> hd p = s \<and> last p = t \<and> walk g p)"

text \<open>The links lead from \<open>x\<close> to the root \<open>r\<close> along at most \<open>k\<close> edges of the graph.\<close>

definition deep :: "graph \<Rightarrow> links \<Rightarrow> node \<Rightarrow> nat \<Rightarrow> node \<Rightarrow> bool" where
  "deep g d r k x = (\<exists>p. chain d x p \<and> last p = r \<and> walk g p \<and> length p \<le> Suc k)"

text \<open>The node \<open>x\<close> is within \<open>k\<close> edges of \<open>r\<close>.\<close>

definition near :: "graph \<Rightarrow> node \<Rightarrow> nat \<Rightarrow> node \<Rightarrow> bool" where
  "near g r k x = (\<exists>p. is_path g r x p \<and> length p \<le> Suc k)"

text \<open>
  One side of the search after \<open>k\<close> levels: every linked node leads to the root in at
  most \<open>k\<close> steps, every node within \<open>k\<close> edges of the root is linked, the neighbours of
  a linked node outside the fringe are linked, and so is the fringe.
\<close>

definition explored :: "graph \<Rightarrow> links \<Rightarrow> node \<Rightarrow> nat \<Rightarrow> node list \<Rightarrow> bool" where
  "explored g d r k fr =
     ((\<forall>x \<in> dom d. deep g d r k x) \<and> (\<forall>x. near g r k x \<longrightarrow> x \<in> dom d)
      \<and> (\<forall>x \<in> dom d - set fr. set (neighbors g x) \<subseteq> dom d) \<and> set fr \<subseteq> dom d)"

lemma link_tree_root: "link_tree g [r \<mapsto> None] r"
  by (auto simp: link_tree_def intro!: exI[of _ "[r]"] chain.root)

lemma pred_succ_tree:
  assumes "bidirectional_pred_succ g s t = Some (pred, succ, w)"
  shows "link_tree g pred s \<and> link_tree g succ t \<and> w \<in> dom pred \<and> w \<in> dom succ"
proof (cases "t = s")
  case True
  then show ?thesis
    using assms by (auto simp: bidirectional_pred_succ_def link_tree_root)
next
  case False
  then have "search g [s \<mapsto> None] [t \<mapsto> None] [s] [t] = Some (pred, succ, w)"
    using assms by (simp add: bidirectional_pred_succ_def)
  then show ?thesis
    by (intro search_tree[where ff = "[s]" and rf = "[t]"]) (simp_all add: link_tree_root)
qed

lemma join_path:
  assumes "link_tree g pred s" and "link_tree g succ t" and "w \<in> dom pred" and "w \<in> dom succ"
  shows "\<exists>p. build_path pred succ w = Some (Inr p) \<and> is_path g s t p"
proof -
  obtain p1 where p1: "chain pred w p1" "last p1 = s" "walk g p1"
    using assms(1,3) unfolding link_tree_def by blast
  obtain p2 where p2: "chain succ w p2" "last p2 = t" "walk g p2"
    using assms(2,4) unfolding link_tree_def by blast
  have f1: "follow pred (Some w) [] = Some (Inr p1)"
    using chain_follow[OF p1(1), of "[]"] by simp
  have h1: "p1 \<noteq> []" "hd p1 = w" using chain_hd[OF p1(1)] by simp_all
  have r1: "rev p1 \<noteq> []" "last (rev p1) = w" "hd (rev p1) = s"
    using h1 p1(2) by (simp_all add: last_rev hd_rev)
  have w1: "walk g (rev p1)" by (rule walk_rev[OF p1(3)])
  obtain z where z: "succ w = Some z" using assms(4) by blast
  have bp: "build_path pred succ w = follow succ z (rev p1)"
    unfolding build_path_def using h1(1) by (simp add: f1 Let_def r1 z)
  from p2(1) show ?thesis
  proof (cases rule: chain.cases)
    case root
    then have "z = None" using z by simp
    then have "build_path pred succ w = Some (Inr (rev p1))"
      by (simp add: bp follow.simps[of succ None])
    moreover have "is_path g s t (rev p1)"
      unfolding is_path_def using r1 w1 p2(2) root by simp
    ultimately show ?thesis by blast
  next
    case (link y q)
    then have zy: "z = Some y" using z by simp
    have fq: "follow succ (Some y) (rev p1) = Some (Inr (rev p1 @ q))"
      by (rule chain_follow[OF link(3)])
    have q: "q \<noteq> []" using chain_hd[OF link(3)] by simp
    have p': "rev p1 = butlast (rev p1) @ [w]"
      using r1(1,2) append_butlast_last_id[of "rev p1"] by simp
    have "walk g (butlast (rev p1) @ [w])" using w1 p' by simp
    moreover have "walk g (w # q)" using p2(3) link(1) by simp
    ultimately have "walk g (butlast (rev p1) @ w # q)" by (rule walk_append)
    then have "walk g ((butlast (rev p1) @ [w]) @ q)" by simp
    then have wq: "walk g (rev p1 @ q)" using p' by simp
    have lq: "last (rev p1 @ q) = t" using q p2(2) link(1) by simp
    have hq: "hd (rev p1 @ q) = s" using r1 by simp
    have "is_path g s t (rev p1 @ q)"
      unfolding is_path_def using wq lq hq r1(1) by simp
    moreover have "build_path pred succ w = Some (Inr (rev p1 @ q))"
      by (simp only: bp zy fq)
    ultimately show ?thesis by blast
  qed
qed

lemma bidirectional_shortest_path_cases:
  "bidirectional_shortest_path g s t = Some (Inl NodeNotFound) \<and> (\<not> has_node g s \<or> \<not> has_node g t)
   \<or> bidirectional_shortest_path g s t = Some (Inl NetworkXNoPath) \<and> has_node g s \<and> has_node g t
   \<or> (\<exists>p. bidirectional_shortest_path g s t = Some (Inr p) \<and> is_path g s t p
          \<and> has_node g s \<and> has_node g t)"
proof (cases "\<not> has_node g s \<or> \<not> has_node g t")
  case True
  then show ?thesis by (simp add: bidirectional_shortest_path_def)
next
  case False
  show ?thesis
  proof (cases "bidirectional_pred_succ g s t")
    case None
    then show ?thesis using False by (simp add: bidirectional_shortest_path_def)
  next
    case (Some found)
    obtain pred succ w where f: "found = (pred, succ, w)" by (cases found)
    from pred_succ_tree[of g s t pred succ w] Some f
    have "link_tree g pred s" "link_tree g succ t" "w \<in> dom pred" "w \<in> dom succ" by auto
    from join_path[OF this] show ?thesis
      using False Some f by (auto simp: bidirectional_shortest_path_def)
  qed
qed

definition shortest_path :: "graph \<Rightarrow> node \<Rightarrow> node \<Rightarrow> (py_error + node list) option" where
  "shortest_path g source target = bidirectional_shortest_path g source target"

text \<open>
  \<^verbatim>\<open>BroadcastShortestPath.get_path\<close>.  A destination instance is a DES process number;
  \<^verbatim>\<open>alloc_DES\<close> maps it to the node that hosts it, \<^verbatim>\<open>alloc_module\<close> maps an application and
  a module to the instances of the module.  The method returns the two lists; the
  warnings it logs are kept as a third list.  Only \<^verbatim>\<open>NetworkXNoPath\<close> is caught.
\<close>

type_synonym des = nat

record routes =
  paths :: "node list list"
  dst_idDES :: "des list"
  warnings :: "(node \<times> node) list"

fun route_each :: "graph \<Rightarrow> (des \<rightharpoonup> node) \<Rightarrow> node \<Rightarrow> des list \<Rightarrow> routes \<Rightarrow> (py_error + routes) option" where
  "route_each g alloc_DES node_src [] acc = Some (Inr acc)"
| "route_each g alloc_DES node_src (des # rest) acc =
     (case alloc_DES des of
        None \<Rightarrow> Some (Inl KeyError)
      | Some dst_node \<Rightarrow>
         (case shortest_path g node_src dst_node of
            None \<Rightarrow> None
          | Some (Inl e) \<Rightarrow>
              if e = NetworkXNoPath
              then route_each g alloc_DES node_src rest
                     (acc\<lparr>warnings := warnings acc @ [(node_src, dst_node)]\<rparr>)
              else Some (Inl e)
          | Some (Inr path) \<Rightarrow>
              route_each g alloc_DES node_src rest
                (acc\<lparr>paths := paths acc @ [path], dst_idDES := dst_idDES acc @ [des]\<rparr>)))"

definition get_path ::
  "graph \<Rightarrow> string \<Rightarrow> string \<Rightarrow> node \<Rightarrow> (des \<rightharpoonup> node) \<Rightarrow> (string \<rightharpoonup> (string \<rightharpoonup> des list)) \<Rightarrow>
   (py_error + routes) option" where
  "get_path g app_name message_dst topology_src alloc_DES alloc_module =
     (case alloc_module app_name of
        None \<Rightarrow> Some (Inl KeyError)
      | Some modules \<Rightarrow>
         (case modules message_dst of
            None \<Rightarrow> Some (Inl KeyError)
          | Some DES_dst_list \<Rightarrow>
              route_each g alloc_DES topology_src DES_dst_list
                \<lparr>paths = [], dst_idDES = [], warnings = []\<rparr>))"

text \<open>
  Two graphs with the same nodes and edges, inserted in different orders: two paths of
  two edges lead from \<open>s\<close> to \<open>t\<close>.
\<close>

definition diamond :: graph where
  "diamond =
     add_edge (add_edge (add_edge (add_edge empty_graph ''s'' ''b'' (1, 1)) ''s'' ''a'' (1, 1))
       ''b'' ''t'' (1, 1)) ''a'' ''t'' (1, 1)"

definition diamond' :: graph where
  "diamond' =
     add_edge (add_edge (add_edge (add_edge empty_graph ''s'' ''a'' (1, 1)) ''s'' ''b'' (1, 1))
       ''a'' ''t'' (1, 1)) ''b'' ''t'' (1, 1)"

lemma diamond_path: "shortest_path diamond ''s'' ''t'' = Some (Inr [''s'', ''b'', ''t''])"
  by (simp add: shortest_path_def bidirectional_shortest_path_def bidirectional_pred_succ_def
      build_path_def diamond_def add_edge_def touch_def empty_graph_def has_node_def has_edge_def
      joins_def neighbors_def Let_def follow.simps)

lemma diamond_path': "shortest_path diamond' ''s'' ''t'' = Some (Inr [''s'', ''a'', ''t''])"
  by (simp add: shortest_path_def bidirectional_shortest_path_def bidirectional_pred_succ_def
      build_path_def diamond'_def add_edge_def touch_def empty_graph_def has_node_def has_edge_def
      joins_def neighbors_def Let_def follow.simps)

text \<open>
  The path found for an instance, if any; an instance hosted on a node of the graph; a
  path that leads from the source to the node hosting an instance.
\<close>

definition routed :: "graph \<Rightarrow> (des \<rightharpoonup> node) \<Rightarrow> node \<Rightarrow> des \<Rightarrow> node list option" where
  "routed g alloc_DES node_src d =
     (case alloc_DES d of
        None \<Rightarrow> None
      | Some dst_node \<Rightarrow>
         (case shortest_path g node_src dst_node of
            Some (Inr path) \<Rightarrow> Some path
          | _ \<Rightarrow> None))"

definition hosted :: "graph \<Rightarrow> (des \<rightharpoonup> node) \<Rightarrow> des \<Rightarrow> bool" where
  "hosted g alloc_DES d = (case alloc_DES d of None \<Rightarrow> False | Some n \<Rightarrow> has_node g n)"

definition reaches :: "graph \<Rightarrow> (des \<rightharpoonup> node) \<Rightarrow> node \<Rightarrow> node list \<Rightarrow> des \<Rightarrow> bool" where
  "reaches g alloc_DES node_src p d =
     (case alloc_DES d of None \<Rightarrow> False | Some n \<Rightarrow> is_path g node_src n p)"

lemma shortest_path_cases:
  assumes "has_node g s" and "has_node g t"
  shows "shortest_path g s t = Some (Inl NetworkXNoPath)
       \<or> (\<exists>p. shortest_path g s t = Some (Inr p) \<and> is_path g s t p)"
  using bidirectional_shortest_path_cases[of g s t] assms by (auto simp: shortest_path_def)

lemma route_each_result:
  assumes "has_node g src" and "list_all (hosted g alloc) ds"
  shows "route_each g alloc src ds acc =
           Some (Inr (acc\<lparr>paths := paths acc @ List.map_filter (routed g alloc src) ds,
                          dst_idDES := dst_idDES acc @ filter (\<lambda>d. routed g alloc src d \<noteq> None) ds,
                          warnings := warnings acc @
                            List.map_filter (\<lambda>d. case routed g alloc src d of
                                                    None \<Rightarrow> map_option (Pair src) (alloc d)
                                                  | Some p \<Rightarrow> None) ds\<rparr>))"
  using assms(2)
proof (induction ds arbitrary: acc)
  case Nil
  show ?case by (simp add: List.map_filter_simps)
next
  case (Cons d ds)
  from Cons.prems have h: "hosted g alloc d" and rest: "list_all (hosted g alloc) ds"
    by simp_all
  from h obtain n where n: "alloc d = Some n" "has_node g n"
    by (auto simp: hosted_def split: option.splits)
  from shortest_path_cases[OF assms(1) n(2)] show ?case
  proof
    assume np: "shortest_path g src n = Some (Inl NetworkXNoPath)"
    then have r: "routed g alloc src d = None" by (simp add: routed_def n)
    show ?thesis
      by (simp add: n np r Cons.IH[OF rest] List.map_filter_simps)
  next
    assume "\<exists>p. shortest_path g src n = Some (Inr p) \<and> is_path g src n p"
    then obtain p where p: "shortest_path g src n = Some (Inr p)" by blast
    then have r: "routed g alloc src d = Some p" by (simp add: routed_def n)
    show ?thesis
      by (simp add: n p r Cons.IH[OF rest] List.map_filter_simps)
  qed
qed

lemma routed_reaches:
  assumes "has_node g src" and "hosted g alloc d" and "routed g alloc src d = Some p"
  shows "reaches g alloc src p d"
proof -
  from assms(2) obtain n where n: "alloc d = Some n" "has_node g n"
    by (auto simp: hosted_def split: option.splits)
  from shortest_path_cases[OF assms(1) n(2)] assms(3) show ?thesis
    by (auto simp: routed_def reaches_def n)
qed

lemma routed_all_reach:
  assumes "has_node g src" and "list_all (hosted g alloc) ds"
  shows "list_all2 (reaches g alloc src) (List.map_filter (routed g alloc src) ds)
           (filter (\<lambda>d. routed g alloc src d \<noteq> None) ds)"
  using assms(2)
proof (induction ds)
  case Nil
  show ?case by (simp add: List.map_filter_simps)
next
  case (Cons d ds)
  then have h: "hosted g alloc d" and rest: "list_all (hosted g alloc) ds" by simp_all
  show ?case
  proof (cases "routed g alloc src d")
    case None
    then show ?thesis using Cons.IH[OF rest] by (simp add: List.map_filter_simps)
  next
    case (Some p)
    then show ?thesis
      using Cons.IH[OF rest] routed_reaches[OF assms(1) h Some]
      by (simp add: List.map_filter_simps)
  qed
qed

text \<open>
  Claim C4.  For a source node of the graph and instances hosted on nodes of the graph,
  \<^verbatim>\<open>get_path\<close> returns normally.  The two lists have the same length; the instances
  returned are, in input order, those for which a path was found, the others being left
  out of both lists with one warning each; and the path at each index leads from the
  source to the node hosting the instance at that index.
\<close>

theorem get_path_index_correspondence:
  assumes "alloc_module app_name = Some modules" and "modules message_dst = Some DES_dst_list"
      and "has_node g node_src" and "list_all (hosted g alloc_DES) DES_dst_list"
  shows "\<exists>r. get_path g app_name message_dst node_src alloc_DES alloc_module = Some (Inr r)
       \<and> length (paths r) = length (dst_idDES r)
       \<and> dst_idDES r = filter (\<lambda>d. routed g alloc_DES node_src d \<noteq> None) DES_dst_list
       \<and> paths r = List.map_filter (routed g alloc_DES node_src) DES_dst_list
       \<and> list_all2 (reaches g alloc_DES node_src) (paths r) (dst_idDES r)
       \<and> length (warnings r) + length (dst_idDES r) = length DES_dst_list"
proof -
  let ?r = "\<lparr>paths = List.map_filter (routed g alloc_DES node_src) DES_dst_list,
             dst_idDES = filter (\<lambda>d. routed g alloc_DES node_src d \<noteq> None) DES_dst_list,
             warnings = List.map_filter (\<lambda>d. case routed g alloc_DES node_src d of
                                              None \<Rightarrow> map_option (Pair node_src) (alloc_DES d)
                                            | Some p \<Rightarrow> None) DES_dst_list\<rparr>"
  have g: "get_path g app_name message_dst node_src alloc_DES alloc_module = Some (Inr ?r)"
    by (simp add: get_path_def assms(1,2) route_each_result[OF assms(3,4)])
  have l2: "list_all2 (reaches g alloc_DES node_src) (paths ?r) (dst_idDES ?r)"
    using routed_all_reach[OF assms(3,4)] by simp
  have len: "length (paths ?r) = length (dst_idDES ?r)"
    using l2 by (rule list_all2_lengthD)
  have w: "length (warnings ?r) + length (dst_idDES ?r) = length DES_dst_list"
    using assms(4)
  proof (induction DES_dst_list)
    case Nil
    show ?case by (simp add: List.map_filter_simps)
  next
    case (Cons d ds)
    then have h: "hosted g alloc_DES d" and rest: "list_all (hosted g alloc_DES) ds"
      by simp_all
    from h obtain n where "alloc_DES d = Some n" by (auto simp: hosted_def split: option.splits)
    then show ?case using Cons.IH[OF rest] by (cases "routed g alloc_DES node_src d")
        (simp_all add: List.map_filter_simps)
  qed
  show ?thesis using g l2 len w by (intro exI[of _ ?r]) simp
qed

text \<open>A path traverses the edge between \<open>u\<close> and \<open>v\<close>, in either direction.\<close>

fun traverses :: "node list \<Rightarrow> node \<Rightarrow> node \<Rightarrow> bool" where
  "traverses [] u v = False"
| "traverses [x] u v = False"
| "traverses (x # y # p) u v = ((x = u \<and> y = v) \<or> (x = v \<and> y = u) \<or> traverses (y # p) u v)"

lemma walk_traverses: "walk g p \<Longrightarrow> traverses p u v \<Longrightarrow> has_edge g u v"
  by (induction p u v rule: traverses.induct) (auto simp: has_edge_sym)

lemma route_each_walks:
  assumes "route_each g alloc src ds acc = Some (Inr r)" and "list_all (walk g) (paths acc)"
  shows "list_all (walk g) (paths r)"
  using assms
proof (induction ds arbitrary: acc)
  case Nil
  then show ?case by simp
next
  case (Cons d ds)
  from Cons.prems(1) obtain n where n: "alloc d = Some n"
    by (cases "alloc d") auto
  show ?case
  proof (cases "shortest_path g src n")
    case None
    then show ?thesis using Cons.prems(1) n by simp
  next
    case (Some res)
    show ?thesis
    proof (cases res)
      case (Inl e)
      then have "route_each g alloc src ds (acc\<lparr>warnings := warnings acc @ [(src, n)]\<rparr>) = Some (Inr r)"
        using Cons.prems(1) n Some by (simp split: if_splits)
      then show ?thesis using Cons.IH Cons.prems(2) by simp
    next
      case (Inr p)
      then have b: "bidirectional_shortest_path g src n = Some (Inr p)"
        using Some by (simp add: shortest_path_def)
      have "is_path g src n p"
        using bidirectional_shortest_path_cases[of g src n] b by auto
      then have w: "walk g p" by (simp add: is_path_def)
      have "route_each g alloc src ds
              (acc\<lparr>paths := paths acc @ [p], dst_idDES := dst_idDES acc @ [d]\<rparr>) = Some (Inr r)"
        using Cons.prems(1) n Some Inr by simp
      then show ?thesis using Cons.IH Cons.prems(2) w by simp
    qed
  qed
qed

lemma get_path_walks:
  assumes "get_path g app_name message_dst src alloc_DES alloc_module = Some (Inr r)"
  shows "list_all (walk g) (paths r)"
proof -
  from assms obtain ds where
    "route_each g alloc_DES src ds \<lparr>paths = [], dst_idDES = [], warnings = []\<rparr> = Some (Inr r)"
    by (auto simp: get_path_def split: option.splits)
  then show ?thesis by (rule route_each_walks) simp
qed

lemma sound_move:
  assumes s: "sound_world w"
  shows "\<exists>cur. tick (MoveTick t r1 r2) w = Inr (moved r1 r2 (w\<lparr>env_now := t\<rparr>))
       \<and> node_locations (ready w) (node_to_move r1 w) = Some cur
       \<and> has_edge (topology_G w) (node_to_move r1 w) cur
       \<and> \<not> has_edge (topology_G (moved r1 r2 (w\<lparr>env_now := t\<rparr>))) (node_to_move r1 w) cur"
proof -
  let ?w = "w\<lparr>env_now := t\<rparr>"
  let ?n = "node_to_move r1 w" and ?new = "new_location_id r1 r2 w"
  have nm: "node_to_move r1 ?w = ?n"
    and pm: "possible_new_locations r1 ?w = possible_new_locations r1 w"
    and nw: "new_location_id r1 r2 ?w = ?new"
    by (simp_all add: node_to_move_def possible_new_locations_def new_location_id_def)
  have con: "consistent (ready w) (topology_G w)" and mn: "mobile_nodes (ready w) = mobile_node_names"
    and cn: "cluster_nodes (ready w) = cluster_names"
    using s by (auto simp: sound_world_def)
  have mob: "mobile_nodes (ready w) \<noteq> []" by (simp add: mn mobile_node_names_def)
  have n_in: "?n \<in> set mobile_node_names" using node_to_move_in[OF mob, of r1] by (simp add: mn)
  obtain cur where loc: "node_locations (ready w) ?n = Some cur"
    and att: "attachments (topology_G w) ?n = [cur]"
    using sound_world_attached[OF s n_in] by blast
  have "\<exists>x \<in> set cluster_names. x \<noteq> cur"
    by (cases "cur = ''cluster_1''") (auto simp: cluster_names_def)
  then have pos: "possible_new_locations r1 w \<noteq> []"
    by (auto simp: possible_new_locations_def cn loc filter_empty_conv)
  have new_ne: "?new \<noteq> cur"
    using new_location_id_in[OF pos, of r2] loc by (auto simp: possible_new_locations_set)
  have call: "tick (MoveTick t r1 r2) w = Inr (moved r1 r2 ?w)"
    using mob pos by (simp add: MovementManager_call_total pm)
  have att': "attachments (topology_G (moved r1 r2 ?w)) ?n = [?new]"
    using moved_attachments(1)[of ?w r1 r2] con mob pos by (simp add: nm nw pm)
  have "cur \<in> set (attachments (topology_G w) ?n)" by (simp add: att)
  then have cl: "node_type (topology_G w) cur = Some CLUSTER"
    and nb: "cur \<in> set (neighbors (topology_G w) ?n)"
    by (simp_all add: attachments_def)
  have ty: "node_type (topology_G (moved r1 r2 ?w)) cur = Some CLUSTER"
    using cl by (simp add: moved_def Let_def node_type_add_edge node_type_detach)
  have "\<not> has_edge (topology_G (moved r1 r2 ?w)) ?n cur"
  proof
    assume "has_edge (topology_G (moved r1 r2 ?w)) ?n cur"
    then have "cur \<in> set (neighbors (topology_G (moved r1 r2 ?w)) ?n)"
      by (simp add: has_edge_neighbors)
    then have "cur \<in> set (attachments (topology_G (moved r1 r2 ?w)) ?n)"
      using ty by (simp add: attachments_def)
    then show False using new_ne by (simp add: att')
  qed
  moreover have "has_edge (topology_G w) ?n cur" using nb by (simp add: has_edge_neighbors)
  ultimately show ?thesis using call loc by blast
qed

text \<open>
  Claim C1.  \<^verbatim>\<open>get_path\<close> keeps no cache: it searches the graph it is given, so every
  path it returns on a graph is a walk along edges of that graph.  In every run of the
  simulation a Mobility Monitor invocation moves a node away from its current cluster;
  the edge to that cluster is in the graph before and not after, and no path that a
  Router call returns on the graph after the move traverses it.
\<close>

theorem get_path_avoids_removed_edge:
  "(\<forall>app_name message_dst src alloc_DES alloc_module r.
      get_path g app_name message_dst src alloc_DES alloc_module = Some (Inr r) \<longrightarrow>
      list_all (walk g) (paths r))
   \<and> (\<exists>w w' cur. run ticks (run_simulation_setup rnd) = Inr w
        \<and> tick (MoveTick t r1 r2) w = Inr w'
        \<and> node_locations (ready w) (node_to_move r1 w) = Some cur
        \<and> has_edge (topology_G w) (node_to_move r1 w) cur
        \<and> \<not> has_edge (topology_G w') (node_to_move r1 w) cur
        \<and> (\<forall>app_name message_dst src alloc_DES alloc_module r.
              get_path (topology_G w') app_name message_dst src alloc_DES alloc_module = Some (Inr r) \<longrightarrow>
              list_all (\<lambda>p. walk (topology_G w') p \<and> \<not> traverses p (node_to_move r1 w) cur)
                (paths r)))"
proof -
  obtain w where w: "run ticks (run_simulation_setup rnd) = Inr w" using run_total by blast
  have s: "sound_world w" by (rule sound_world_run[OF w])
  from sound_move[OF s, of t r1 r2] obtain cur where
    c: "tick (MoveTick t r1 r2) w = Inr (moved r1 r2 (w\<lparr>env_now := t\<rparr>))"
      "node_locations (ready w) (node_to_move r1 w) = Some cur"
      "has_edge (topology_G w) (node_to_move r1 w) cur"
      "\<not> has_edge (topology_G (moved r1 r2 (w\<lparr>env_now := t\<rparr>))) (node_to_move r1 w) cur"
    by blast
  let ?g' = "topology_G (moved r1 r2 (w\<lparr>env_now := t\<rparr>))"
  have "list_all (\<lambda>p. walk ?g' p \<and> \<not> traverses p (node_to_move r1 w) cur) (paths r)"
    if "get_path ?g' app_name message_dst src alloc_DES alloc_module = Some (Inr r)"
    for app_name message_dst src alloc_DES alloc_module r
    using get_path_walks[OF that] c(4) walk_traverses[of ?g' _ "node_to_move r1 w" cur]
    by (auto simp: list_all_iff)
  then show ?thesis using w c get_path_walks by blast
qed

text \<open>The placement of \<^verbatim>\<open>run_simulation\<close>: one ClusterLeader instance on each cluster.\<close>

definition cluster_leaders :: "des \<rightharpoonup> node" where
  "cluster_leaders = [1 \<mapsto> ''cluster_1'', 2 \<mapsto> ''cluster_2'', 3 \<mapsto> ''cluster_3'']"

definition secure_app :: "string \<rightharpoonup> (string \<rightharpoonup> des list)" where
  "secure_app = [''SecureApp'' \<mapsto> [''ClusterLeader'' \<mapsto> [1, 2, 3]]]"

text \<open>A Router call from the node \<open>iot_0\<close> after its move from cluster 1 to cluster 2.\<close>

lemma route_example:
  "(case tick (MoveTick 35 0 0) (run_simulation_setup (\<lambda>i. i)) of
      Inl e \<Rightarrow> False
    | Inr w' \<Rightarrow>
        get_path (topology_G w') ''SecureApp'' ''ClusterLeader'' ''iot_0'' cluster_leaders secure_app =
          Some (Inr \<lparr>paths = [[''iot_0'', ''cluster_2'', ''area_leader'', ''cluster_1''],
                              [''iot_0'', ''cluster_2''],
                              [''iot_0'', ''cluster_2'', ''area_leader'', ''cluster_3'']],
                     dst_idDES = [1, 2, 3], warnings = []\<rparr>))
   \<and> node_to_move 0 (run_simulation_setup (\<lambda>i. i)) = ''iot_0''
   \<and> node_locations (ready (run_simulation_setup (\<lambda>i. i))) ''iot_0'' = Some ''cluster_1''"
  by code_simp

text \<open>Witness for C1: that call, and the removed edge.\<close>

theorem get_path_avoids_removed_edge_witness:
  "\<exists>w w'. run [] (run_simulation_setup (\<lambda>i. i)) = Inr w
     \<and> tick (MoveTick 35 0 0) w = Inr w'
     \<and> has_edge (topology_G w) ''iot_0'' ''cluster_1''
     \<and> \<not> has_edge (topology_G w') ''iot_0'' ''cluster_1''
     \<and> get_path (topology_G w') ''SecureApp'' ''ClusterLeader'' ''iot_0'' cluster_leaders secure_app =
          Some (Inr \<lparr>paths = [[''iot_0'', ''cluster_2'', ''area_leader'', ''cluster_1''],
                              [''iot_0'', ''cluster_2''],
                              [''iot_0'', ''cluster_2'', ''area_leader'', ''cluster_3'']],
                     dst_idDES = [1, 2, 3], warnings = []\<rparr>)"
proof -
  from get_path_avoids_removed_edge[of "topology_G (run_simulation_setup (\<lambda>i. i))" "[]" "\<lambda>i. i" 35 0 0]
  obtain w w' cur where w: "run [] (run_simulation_setup (\<lambda>i. i)) = Inr w"
    and t: "tick (MoveTick 35 0 0) w = Inr w'"
    and l: "node_locations (ready w) (node_to_move 0 w) = Some cur"
    and h: "has_edge (topology_G w) (node_to_move 0 w) cur"
    and n: "\<not> has_edge (topology_G w') (node_to_move 0 w) cur"
    by blast
  have w0: "w = run_simulation_setup (\<lambda>i. i)" using w by simp
  from route_example have nm: "node_to_move 0 w = ''iot_0''"
    and c: "node_locations (ready w) ''iot_0'' = Some ''cluster_1''"
    by (simp_all add: w0)
  have cur: "cur = ''cluster_1''" using l c by (simp add: nm)
  from route_example t have
    "get_path (topology_G w') ''SecureApp'' ''ClusterLeader'' ''iot_0'' cluster_leaders secure_app =
          Some (Inr \<lparr>paths = [[''iot_0'', ''cluster_2'', ''area_leader'', ''cluster_1''],
                              [''iot_0'', ''cluster_2''],
                              [''iot_0'', ''cluster_2'', ''area_leader'', ''cluster_3'']],
                     dst_idDES = [1, 2, 3], warnings = []\<rparr>)"
    by (simp add: w0)
  then show ?thesis using w t h n by (auto simp: nm cur)
qed

text \<open>The leader topology with one more cluster, linked to nothing, hosting instance 2.\<close>

definition stranded_graph :: graph where
  "stranded_graph = add_node leader_topology ''cluster_9'' CLUSTER"

definition stranded_leaders :: "des \<rightharpoonup> node" where
  "stranded_leaders = [1 \<mapsto> ''cluster_1'', 2 \<mapsto> ''cluster_9'', 3 \<mapsto> ''cluster_3'']"

lemma stranded_example:
  "get_path stranded_graph ''SecureApp'' ''ClusterLeader'' ''area_leader'' stranded_leaders secure_app =
     Some (Inr \<lparr>paths = [[''area_leader'', ''cluster_1''], [''area_leader'', ''cluster_3'']],
                dst_idDES = [1, 3], warnings = [(''area_leader'', ''cluster_9'')]\<rparr>)
   \<and> has_node stranded_graph ''area_leader''
   \<and> list_all (hosted stranded_graph stranded_leaders) [1, 2, 3]"
  by code_simp

text \<open>Witness for C4: the instance on the stranded cluster is left out, with a warning.\<close>

theorem get_path_index_correspondence_witness:
  "secure_app ''SecureApp'' = Some [''ClusterLeader'' \<mapsto> [1, 2, 3]]
   \<and> [''ClusterLeader'' \<mapsto> [1, 2, 3 :: des]] ''ClusterLeader'' = Some [1, 2, 3]
   \<and> has_node stranded_graph ''area_leader''
   \<and> list_all (hosted stranded_graph stranded_leaders) [1, 2, 3]
   \<and> get_path stranded_graph ''SecureApp'' ''ClusterLeader'' ''area_leader'' stranded_leaders secure_app =
       Some (Inr \<lparr>paths = [[''area_leader'', ''cluster_1''], [''area_leader'', ''cluster_3'']],
                  dst_idDES = [1, 3], warnings = [(''area_leader'', ''cluster_9'')]\<rparr>)
   \<and> reaches stranded_graph stranded_leaders ''area_leader'' [''area_leader'', ''cluster_3''] 3"
proof -
  have a: "secure_app ''SecureApp'' = Some [''ClusterLeader'' \<mapsto> [1, 2, 3]]"
    by (simp add: secure_app_def)
  have b: "[''ClusterLeader'' \<mapsto> [1, 2, 3 :: des]] ''ClusterLeader'' = Some [1, 2, 3]" by simp
  note e = stranded_example
  have c: "has_node stranded_graph ''area_leader''"
    and d: "list_all (hosted stranded_graph stranded_leaders) [1, 2, 3]"
    using e by simp_all
  from get_path_index_correspondence
    [where alloc_module = secure_app and app_name = "''SecureApp''"
       and modules = "[''ClusterLeader'' \<mapsto> [1, 2, 3]]" and message_dst = "''ClusterLeader''"
       and DES_dst_list = "[1, 2, 3]" and g = stranded_graph and node_src = "''area_leader''"
       and alloc_DES = stranded_leaders, OF a b c d]
  obtain r where r: "get_path stranded_graph ''SecureApp'' ''ClusterLeader'' ''area_leader''
        stranded_leaders secure_app = Some (Inr r)"
    and l: "list_all2 (reaches stranded_graph stranded_leaders ''area_leader'') (paths r) (dst_idDES r)"
    by blast
  have "r = \<lparr>paths = [[''area_leader'', ''cluster_1''], [''area_leader'', ''cluster_3'']],
                  dst_idDES = [1, 3], warnings = [(''area_leader'', ''cluster_9'')]\<rparr>"
    using r e by simp
  then have "reaches stranded_graph stranded_leaders ''area_leader'' [''area_leader'', ''cluster_3''] 3"
    using l by simp
  then show ?thesis using a b e by simp
qed

lemma level_edges_cong:
  assumes "edges g = edges g'"
  shows "level g this other vs fr = level g' this other vs fr"
  by (induction vs arbitrary: this fr)
     (simp_all add: neighbors_edges_cong[OF assms] split: sum.splits)

lemma search_edges_cong:
  assumes "edges g = edges g'"
  shows "search g pred succ ff rf = search g' pred succ ff rf"
  using assms
proof (induction g pred succ ff rf rule: search.induct)
  case (1 g pred succ ff rf)
  note l = level_edges_cong[OF "1.prems"]
  show ?case
  proof (cases "ff = [] \<or> rf = []")
    case True
    then show ?thesis by auto
  next
    case ne: False
    show ?thesis
    proof (cases "length ff \<le> length rf")
      case True
      show ?thesis
      proof (cases "level g pred succ ff []")
        case (Inl found)
        then show ?thesis
          using ne True l[of pred succ ff "[]"]
          by (simp add: search.simps[of g] search.simps[of g'] split: prod.splits)
      next
        case (Inr cont)
        obtain p1 f1 where c: "cont = (p1, f1)" by (cases cont)
        have "search g p1 succ f1 rf = search g' p1 succ f1 rf"
          using "1.IH"(1)[OF ne True Inr _ "1.prems"] c by simp
        then show ?thesis
          using ne True Inr c l[of pred succ ff "[]"]
          by (simp add: search.simps[of g] search.simps[of g'])
      qed
    next
      case False
      show ?thesis
      proof (cases "level g succ pred rf []")
        case (Inl found)
        then show ?thesis
          using ne False l[of succ pred rf "[]"]
          by (simp add: search.simps[of g] search.simps[of g'] split: prod.splits)
      next
        case (Inr cont)
        obtain s1 f1 where c: "cont = (s1, f1)" by (cases cont)
        have "search g pred s1 ff f1 = search g' pred s1 ff f1"
          using "1.IH"(2)[OF ne False Inr _ "1.prems"] c by simp
        then show ?thesis
          using ne False Inr c l[of succ pred rf "[]"]
          by (simp add: search.simps[of g] search.simps[of g'])
      qed
    qed
  qed
qed

lemma shortest_path_edges_cong:
  assumes "edges g = edges g'" and "set (map fst (nodes g)) = set (map fst (nodes g'))"
  shows "shortest_path g s t = shortest_path g' s t"
proof -
  have hn: "has_node g x = has_node g' x" for x using assms(2) by (simp add: has_node_def)
  have bps: "bidirectional_pred_succ g s t = bidirectional_pred_succ g' s t"
    by (simp only: bidirectional_pred_succ_def search_edges_cong[OF assms(1)])
  show ?thesis
    by (simp only: shortest_path_def bidirectional_shortest_path_def bps hn)
qed

subsection \<open>The search returns a shortest path\<close>

lemma chain_unique: "chain d x p \<Longrightarrow> chain d x q \<Longrightarrow> p = q"
proof (induction arbitrary: q rule: chain.induct)
  case (root d x)
  from root(2) show ?case using root(1) by (cases rule: chain.cases) auto
next
  case (link d x y p)
  from link(4) show ?case using link(1,3) by (cases rule: chain.cases) auto
qed

lemma build_path_chain:
  assumes p1: "chain pred w p1" and p2: "chain succ w p2"
  shows "build_path pred succ w = Some (Inr (rev p1 @ tl p2))"
proof -
  have f1: "follow pred (Some w) [] = Some (Inr p1)"
    using chain_follow[OF p1, of "[]"] by simp
  have h1: "p1 \<noteq> []" "hd p1 = w" using chain_hd[OF p1] by simp_all
  have r1: "rev p1 \<noteq> []" "last (rev p1) = w"
    using h1 by (simp_all add: last_rev)
  from p2 show ?thesis
  proof (cases rule: chain.cases)
    case root
    then have "build_path pred succ w = follow succ None (rev p1)"
      unfolding build_path_def using h1(1) by (simp add: f1 Let_def r1)
    then show ?thesis using root by (simp add: follow.simps[of succ None])
  next
    case (link y q)
    then have "build_path pred succ w = follow succ (Some y) (rev p1)"
      unfolding build_path_def using h1(1) by (simp add: f1 Let_def r1)
    then show ?thesis using link chain_follow[OF link(3), of "rev p1"] by simp
  qed
qed

lemma chain_in_dom: "chain d x p \<Longrightarrow> x \<in> dom d"
  by (induction rule: chain.induct) auto

lemma deep_dom: "deep g d r k x \<Longrightarrow> x \<in> dom d"
  using chain_in_dom unfolding deep_def by blast

lemma deep_mono: "deep g d r k x \<Longrightarrow> k \<le> k' \<Longrightarrow> deep g d r k' x"
  by (auto simp: deep_def intro: le_trans)

lemma deep_extend:
  assumes "deep g d r k x" and "w \<notin> dom d"
  shows "deep g (d(w \<mapsto> z)) r k x"
  using assms chain_extend unfolding deep_def by blast

lemma deep_add:
  assumes v: "deep g d r k v" and w: "w \<notin> dom d" and e: "w \<in> set (neighbors g v)"
  shows "deep g (d(w \<mapsto> Some v)) r (Suc k) w"
proof -
  obtain p where p: "chain d v p" "last p = r" "walk g p" "length p \<le> Suc k"
    using v by (auto simp: deep_def)
  have hd: "p \<noteq> []" "hd p = v" using chain_hd[OF p(1)] by auto
  then obtain q where q: "p = v # q" by (cases p) auto
  have c: "chain (d(w \<mapsto> Some v)) w (w # p)"
    by (rule chain.link[where y = v]) (simp_all add: chain_extend[OF p(1) w])
  have "has_edge g v w" using e by (simp add: has_edge_neighbors)
  then have "has_edge g w v" using has_edge_sym by blast
  then have "walk g (w # p)" using p(3) by (simp add: q)
  then show ?thesis unfolding deep_def using c p(2,4) hd by (intro exI[of _ "w # p"]) auto
qed

lemma scan_deep:
  assumes "\<forall>x \<in> dom this. deep g this r (Suc k) x" and "deep g this r k v"
      and "set ws \<subseteq> set (neighbors g v)"
  shows "(case scan this other v ws fr of
            Inl (this', w) \<Rightarrow> deep g this' r (Suc k) w \<and> w \<in> dom other
          | Inr (this', fr') \<Rightarrow> (\<forall>x \<in> dom this'. deep g this' r (Suc k) x)
                \<and> (\<forall>x. deep g this r k x \<longrightarrow> deep g this' r k x))"
  using assms
proof (induction ws arbitrary: this fr)
  case Nil
  then show ?case by simp
next
  case (Cons w ws)
  let ?this' = "if this w = None then this(w \<mapsto> Some v) else this"
  have keep: "deep g this r j x \<Longrightarrow> deep g ?this' r j x" for j x
    by (auto intro: deep_extend simp: domIff)
  have a': "\<forall>x \<in> dom ?this'. deep g ?this' r (Suc k) x"
  proof
    fix x assume x: "x \<in> dom ?this'"
    show "deep g ?this' r (Suc k) x"
    proof (cases "x \<in> dom this")
      case True
      then show ?thesis using Cons.prems(1) keep by blast
    next
      case False
      then have xw: "x = w" "this w = None" using x by (auto split: if_splits)
      have "w \<in> set (neighbors g v)" using Cons.prems(3) by simp
      then show ?thesis
        using deep_add[OF Cons.prems(2), of w] xw by (simp add: domIff)
    qed
  qed
  have v': "deep g ?this' r k v" using Cons.prems(2) keep by blast
  have s: "set ws \<subseteq> set (neighbors g v)" using Cons.prems(3) by simp
  have w': "w \<in> dom ?this'" by (auto simp: domIff)
  show ?case
  proof (cases "other w = None")
    case True
    then have eq: "scan this other v (w # ws) fr =
        scan ?this' other v ws (if this w = None then fr @ [w] else fr)"
      by (simp add: Let_def)
    show ?thesis
      using Cons.IH[OF a' v' s, of "if this w = None then fr @ [w] else fr"] keep
      unfolding eq by (auto split: sum.splits prod.splits)
  next
    case False
    then have "scan this other v (w # ws) fr = Inl (?this', w)"
      by (simp add: Let_def)
    then show ?thesis using a' w' False by (auto simp: domIff)
  qed
qed

lemma scan_miss:
  assumes "scan this other v ws fr = Inr (this', fr')"
  shows "\<forall>w \<in> set ws. other w = None \<and> w \<in> dom this'"
  using assms
proof (induction ws arbitrary: this fr)
  case Nil
  then show ?case by simp
next
  case (Cons w ws)
  let ?this' = "if this w = None then this(w \<mapsto> Some v) else this"
  have o: "other w = None" using Cons.prems by (auto simp: Let_def split: if_splits)
  have "scan this other v (w # ws) fr =
        scan ?this' other v ws (if this w = None then fr @ [w] else fr)"
    using o by (simp add: Let_def)
  then have eq: "scan ?this' other v ws (if this w = None then fr @ [w] else fr) = Inr (this', fr')"
    using Cons.prems by simp
  have "dom ?this' \<subseteq> dom this'" using scan_Inr[OF eq] by auto
  moreover have "w \<in> dom ?this'" by (auto simp: domIff)
  ultimately show ?case using Cons.IH[OF eq] o by auto
qed

lemma level_deep:
  assumes "\<forall>x \<in> dom this. deep g this r (Suc k) x" and "\<forall>v \<in> set vs. deep g this r k v"
  shows "(case level g this other vs fr of
            Inl (this', w) \<Rightarrow> deep g this' r (Suc k) w \<and> w \<in> dom other
          | Inr (this', fr') \<Rightarrow> (\<forall>x \<in> dom this'. deep g this' r (Suc k) x))"
  using assms
proof (induction vs arbitrary: this fr)
  case Nil
  then show ?case by simp
next
  case (Cons v vs)
  have v: "deep g this r k v" using Cons.prems(2) by simp
  note sd = scan_deep[OF Cons.prems(1) v subset_refl, of other fr]
  show ?case
  proof (cases "scan this other v (neighbors g v) fr")
    case (Inl found)
    then show ?thesis using sd by (auto split: prod.splits)
  next
    case (Inr cont)
    obtain this1 fr1 where c: "cont = (this1, fr1)" by (cases cont)
    have a1: "\<forall>x \<in> dom this1. deep g this1 r (Suc k) x"
      and k1: "\<forall>x. deep g this r k x \<longrightarrow> deep g this1 r k x"
      using sd Inr c by simp_all
    have v1: "\<forall>v \<in> set vs. deep g this1 r k v" using Cons.prems(2) k1 by simp
    show ?thesis using Cons.IH[OF a1 v1, of fr1] Inr c by simp
  qed
qed

lemma level_miss:
  assumes "level g this other vs fr = Inr (this', fr')"
  shows "\<forall>v \<in> set vs. \<forall>w \<in> set (neighbors g v). other w = None \<and> w \<in> dom this'"
  using assms
proof (induction vs arbitrary: this fr)
  case Nil
  then show ?case by simp
next
  case (Cons v vs)
  from Cons.prems obtain this1 fr1 where
    s: "scan this other v (neighbors g v) fr = Inr (this1, fr1)"
    and l: "level g this1 other vs fr1 = Inr (this', fr')"
    by (auto split: sum.splits)
  have "dom this1 \<subseteq> dom this'" using level_Inr[OF l] by auto
  then have "\<forall>w \<in> set (neighbors g v). other w = None \<and> w \<in> dom this'"
    using scan_miss[OF s] by blast
  then show ?case using Cons.IH[OF l] by simp
qed

text \<open>A walk of the graph, cut at a node.\<close>

lemma walk_take: "walk g p \<Longrightarrow> walk g (take n p)"
proof (induction g p arbitrary: n rule: walk.induct)
  case (3 g x y p)
  show ?case
  proof (cases n)
    case (Suc m)
    show ?thesis
    proof (cases m)
      case 0
      then show ?thesis using Suc by simp
    next
      case (Suc j)
      have w: "walk g (y # p)" "has_edge g x y" using 3(2) by simp_all
      have "walk g (take (Suc j) (y # p))" by (rule 3(1)[OF w(1)])
      then have "walk g (y # take j p)" by simp
      then show ?thesis using w(2) Suc \<open>n = Suc m\<close> by simp
    qed
  qed simp
next
  case (2 g x)
  then show ?case by (cases n) simp_all
qed simp

lemma walk_drop: "walk g p \<Longrightarrow> walk g (drop n p)"
proof (induction n arbitrary: p)
  case (Suc n)
  then show ?case
  proof (cases p)
    case (Cons x q)
    then have "walk g q" using Suc.prems by (cases q) auto
    then show ?thesis using Suc.IH Cons by simp
  qed simp
qed simp

lemma walk_closed:
  assumes "walk g p" and "\<forall>x \<in> A. set (neighbors g x) \<subseteq> A" and "p \<noteq> []" and "hd p \<in> A"
  shows "set p \<subseteq> A"
  using assms
proof (induction g p rule: walk.induct)
  case (3 g' x y p)
  have "y \<in> set (neighbors g' x)" using 3(2) by (simp add: has_edge_neighbors)
  then show ?case using 3 by auto
qed simp_all

lemma is_path_rev: "is_path g s t p \<Longrightarrow> is_path g t s (rev p)"
  by (auto simp: is_path_def hd_rev last_rev walk_rev)

lemma near_self: "near g r k r"
  unfolding near_def is_path_def by (intro exI[of _ "[r]"]) simp

lemma walk_last_edge: "walk g (q @ [u, x]) \<Longrightarrow> has_edge g u x"
  by (induction g q rule: walk.induct) auto

lemma near_Suc:
  assumes "near g r (Suc k) x"
  shows "near g r k x \<or> (\<exists>u. near g r k u \<and> x \<in> set (neighbors g u))"
proof -
  from assms obtain p where ip: "is_path g r x p" and lp: "length p \<le> Suc (Suc k)"
    unfolding near_def by blast
  have p: "p \<noteq> []" "hd p = r" "last p = x" "walk g p" "length p \<le> Suc (Suc k)"
    using ip lp by (simp_all add: is_path_def)
  show ?thesis
  proof (cases "length p \<le> Suc k")
    case True
    then show ?thesis using ip unfolding near_def by blast
  next
    case False
    then have len: "length p = Suc (Suc k)" using p(5) by simp
    let ?q = "butlast p"
    have q: "?q \<noteq> []" using len by (cases p) (auto split: if_splits)
    let ?u = "last ?q"
    have "butlast ?q @ [?u, x] = (butlast ?q @ [?u]) @ [x]" by simp
    also have "\<dots> = ?q @ [x]" using q by simp
    also have "\<dots> = p" using append_butlast_last_id[OF p(1)] p(3) by simp
    finally have "walk g (butlast ?q @ [?u, x])" using p(4) by simp
    then have e: "has_edge g ?u x" by (rule walk_last_edge)
    have "walk g (take (length p - 1) p)" by (rule walk_take[OF p(4)])
    then have w: "walk g ?q" by (simp add: butlast_conv_take)
    have "hd (?q @ [x]) = hd ?q" using q by simp
    moreover have "?q @ [x] = p" using append_butlast_last_id[OF p(1)] p(3) by simp
    ultimately have h: "hd ?q = r" using p(2) by simp
    have "is_path g r ?u ?q \<and> length ?q \<le> Suc k"
      unfolding is_path_def using q h w len by simp
    then have "near g r k ?u" unfolding near_def by blast
    moreover have "x \<in> set (neighbors g ?u)" using e by (simp add: has_edge_neighbors)
    ultimately show ?thesis by blast
  qed
qed

lemma explored_init: "explored g [r \<mapsto> None] r 0 [r]"
proof -
  have "deep g [r \<mapsto> None] r 0 r"
    unfolding deep_def by (intro exI[of _ "[r]"]) (simp add: chain.root)
  moreover have "x = r" if "near g r 0 x" for x
  proof -
    from that obtain p where ip: "is_path g r x p" and lp: "length p \<le> Suc 0"
      unfolding near_def by blast
    have p: "p \<noteq> []" "hd p = r" "last p = x" using ip by (simp_all add: is_path_def)
    then show ?thesis using lp by (cases p) auto
  qed
  ultimately show ?thesis by (auto simp: explored_def)
qed

lemma scan_fresh:
  assumes "scan this other v ws fr = Inr (this', fr')"
  shows "\<forall>x \<in> dom this' - dom this. other x = None"
proof -
  from scan_Inr[OF assms] obtain new where "dom this' = dom this \<union> set new" "set new \<subseteq> set ws"
    by blast
  then show ?thesis using scan_miss[OF assms] by blast
qed

lemma level_fresh:
  assumes "level g this other vs fr = Inr (this', fr')"
  shows "\<forall>x \<in> dom this' - dom this. other x = None"
  using assms
proof (induction vs arbitrary: this fr)
  case Nil
  then show ?case by simp
next
  case (Cons v vs)
  from Cons.prems obtain this1 fr1 where
    s: "scan this other v (neighbors g v) fr = Inr (this1, fr1)"
    and l: "level g this1 other vs fr1 = Inr (this', fr')"
    by (auto split: sum.splits)
  show ?case using scan_fresh[OF s] Cons.IH[OF l] by blast
qed

lemma explored_level:
  assumes ex: "explored g d r k fr" and l: "level g d other fr [] = Inr (d', fr')"
  shows "explored g d' r (Suc k) fr'"
proof -
  from level_Inr[OF l] have fr': "dom d' = dom d \<union> set fr'" "set fr' \<inter> dom d = {}" by auto
  have A: "\<forall>x \<in> dom d. deep g d r k x" and B: "\<forall>x. near g r k x \<longrightarrow> x \<in> dom d"
    and C: "\<forall>x \<in> dom d - set fr. set (neighbors g x) \<subseteq> dom d" and F: "set fr \<subseteq> dom d"
    using ex by (simp_all add: explored_def)
  have A1: "\<forall>x \<in> dom d. deep g d r (Suc k) x" using A deep_mono[of g d r k _ "Suc k"] by simp
  have A2: "\<forall>v \<in> set fr. deep g d r k v" using A F by blast
  have A': "\<forall>x \<in> dom d'. deep g d' r (Suc k) x"
    using level_deep[OF A1 A2, of other "[]"] l by simp
  have N: "set (neighbors g u) \<subseteq> dom d'" if "u \<in> dom d" for u
  proof (cases "u \<in> set fr")
    case True
    then show ?thesis using level_miss[OF l] by blast
  next
    case False
    then show ?thesis using C that fr'(1) by blast
  qed
  have B': "\<forall>x. near g r (Suc k) x \<longrightarrow> x \<in> dom d'"
  proof (intro allI impI)
    fix x assume "near g r (Suc k) x"
    from near_Suc[OF this] show "x \<in> dom d'"
    proof
      assume "near g r k x"
      then show ?thesis using B fr'(1) by blast
    next
      assume "\<exists>u. near g r k u \<and> x \<in> set (neighbors g u)"
      then obtain u where "u \<in> dom d" "x \<in> set (neighbors g u)" using B by blast
      then show ?thesis using N by blast
    qed
  qed
  have C': "\<forall>x \<in> dom d' - set fr'. set (neighbors g x) \<subseteq> dom d'"
    using fr'(1) N by blast
  show ?thesis unfolding explored_def using A' B' C' fr'(1) by blast
qed

lemma explored_hit:
  assumes ex: "explored g d r k fr" and l: "level g d other fr [] = Inl (d', w)"
  shows "deep g d' r (Suc k) w \<and> w \<in> dom other"
proof -
  have A: "\<forall>x \<in> dom d. deep g d r k x" and F: "set fr \<subseteq> dom d"
    using ex by (simp_all add: explored_def)
  have A1: "\<forall>x \<in> dom d. deep g d r (Suc k) x" using A deep_mono[of g d r k _ "Suc k"] by simp
  have A2: "\<forall>v \<in> set fr. deep g d r k v" using A F by blast
  show ?thesis using level_deep[OF A1 A2, of other "[]"] l by simp
qed

text \<open>Two explored regions that do not meet keep every path longer than their radii.\<close>

lemma path_crosses:
  assumes s: "\<forall>x. near g s k x \<longrightarrow> x \<in> A" and t: "\<forall>x. near g t l x \<longrightarrow> x \<in> B"
      and d: "A \<inter> B = {}" and q: "is_path g s t q"
  shows "k + l + 2 \<le> length q"
proof (rule ccontr)
  assume "\<not> k + l + 2 \<le> length q"
  then have len: "length q \<le> k + l + 1" by simp
  have q': "q \<noteq> []" "hd q = s" "last q = t" "walk g q" using q by (simp_all add: is_path_def)
  define n where "n = length q"
  define i where "i = min k (n - 1)"
  have n0: "0 < n" using q'(1) by (simp add: n_def)
  have ln: "n \<le> k + l + 1" using len by (simp add: n_def)
  have "i < n \<and> i \<le> k \<and> n - 1 - i \<le> l"
    using n0 ln unfolding i_def min_def by arith
  then have i: "i < length q" "i \<le> k" "length q - 1 - i \<le> l"
    by (simp_all add: n_def)
  let ?x = "q ! i"
  have "take (Suc i) q \<noteq> []" using q'(1) by simp
  moreover have "hd (take (Suc i) q) = s" using q'(2) by (simp add: hd_take)
  moreover have "last (take (Suc i) q) = ?x" using i(1) by (simp add: take_Suc_conv_app_nth)
  ultimately have "is_path g s ?x (take (Suc i) q)"
    unfolding is_path_def using walk_take[OF q'(4), of "Suc i"] by blast
  moreover have "length (take (Suc i) q) \<le> Suc k" using i by simp
  ultimately have "near g s k ?x" unfolding near_def by blast
  then have xa: "?x \<in> A" using s by blast
  have "drop i q \<noteq> []" using i(1) by simp
  moreover have "hd (drop i q) = ?x" using i(1) by (simp add: hd_drop_conv_nth)
  moreover have "last (drop i q) = t" using i(1) q'(3) by simp
  ultimately have "is_path g ?x t (drop i q)"
    unfolding is_path_def using walk_drop[OF q'(4), of i] by blast
  then have "is_path g t ?x (rev (drop i q))" by (rule is_path_rev)
  moreover have "length (rev (drop i q)) \<le> Suc l" using i by simp
  ultimately have "near g t l ?x" unfolding near_def by blast
  then have "?x \<in> B" using t by blast
  then show False using xa d by blast
qed

lemma no_path_closed:
  assumes c: "\<forall>x \<in> A. set (neighbors g x) \<subseteq> A" and s: "s \<in> A" and t: "t \<notin> A"
  shows "\<not> is_path g s t q"
proof
  assume q: "is_path g s t q"
  then have "set q \<subseteq> A" using walk_closed[of g q A] c s by (simp add: is_path_def)
  moreover have "t \<in> set q" using q by (auto simp: is_path_def)
  ultimately show False using t by blast
qed

lemma join_chains:
  assumes p1: "chain pred w p1" "last p1 = s" "walk g p1"
      and p2: "chain succ w p2" "last p2 = t" "walk g p2"
  shows "is_path g s t (rev p1 @ tl p2) \<and> Suc (length (rev p1 @ tl p2)) = length p1 + length p2"
proof -
  have h1: "p1 \<noteq> []" "hd p1 = w" using chain_hd[OF p1(1)] by simp_all
  have h2: "p2 \<noteq> []" "hd p2 = w" using chain_hd[OF p2(1)] by simp_all
  have e2: "p2 = w # tl p2" using h2 by (cases p2) auto
  have r1: "rev p1 \<noteq> []" "last (rev p1) = w" "hd (rev p1) = s"
    using h1 p1(2) by (simp_all add: last_rev hd_rev)
  have w1: "walk g (rev p1)" by (rule walk_rev[OF p1(3)])
  obtain b where b: "rev p1 = b @ [w]"
    using append_butlast_last_id[OF r1(1)] r1(2) by metis
  have "walk g (b @ [w])" using w1 b by simp
  moreover have "walk g (w # tl p2)" using p2(3) e2 by simp
  ultimately have "walk g (b @ w # tl p2)" by (rule walk_append)
  then have wq: "walk g (rev p1 @ tl p2)" unfolding b by simp
  have lq: "last (rev p1 @ tl p2) = t"
  proof (cases "tl p2 = []")
    case True
    then have "p2 = [w]" using e2 by simp
    then have "t = w" using p2(2) by simp
    then show ?thesis using True r1(2) by simp
  next
    case False
    then have "last p2 = last (tl p2)" using e2 by (metis last_ConsR)
    then show ?thesis using False p2(2) by simp
  qed
  have hq: "hd (rev p1 @ tl p2) = s" using r1 by simp
  have "0 < length p2" using h2(1) by simp
  then have len: "Suc (length (rev p1 @ tl p2)) = length p1 + length p2" by simp
  have "is_path g s t (rev p1 @ tl p2)" unfolding is_path_def using wq lq hq r1(1) by simp
  then show ?thesis using len by blast
qed

lemma meet_shortest:
  assumes ds: "deep g pred s k w" and dt: "deep g succ t l w"
      and q: "\<forall>q. is_path g s t q \<longrightarrow> Suc (k + l) \<le> length q"
  shows "\<exists>p. build_path pred succ w = Some (Inr p) \<and> is_path g s t p
             \<and> (\<forall>q. is_path g s t q \<longrightarrow> length p \<le> length q)"
proof -
  obtain p1 where p1: "chain pred w p1" "last p1 = s" "walk g p1" "length p1 \<le> Suc k"
    using ds unfolding deep_def by blast
  obtain p2 where p2: "chain succ w p2" "last p2 = t" "walk g p2" "length p2 \<le> Suc l"
    using dt unfolding deep_def by blast
  let ?p = "rev p1 @ tl p2"
  have b: "build_path pred succ w = Some (Inr ?p)" by (rule build_path_chain[OF p1(1) p2(1)])
  note jc = join_chains[OF p1(1-3) p2(1-3)]
  have i: "is_path g s t ?p" using jc by (rule conjunct1)
  have len: "Suc (length ?p) = length p1 + length p2" using jc by (rule conjunct2)
  have "length ?p \<le> Suc (k + l)" using len p1(4) p2(4) by arith
  then have "\<forall>q. is_path g s t q \<longrightarrow> length ?p \<le> length q" using q le_trans by blast
  then show ?thesis using b i by blast
qed

lemma search_shortest:
  assumes "explored g pred s k ff" and "explored g succ t l rf" and "dom pred \<inter> dom succ = {}"
  shows "(case search g pred succ ff rf of
            None \<Rightarrow> (\<forall>q. \<not> is_path g s t q)
          | Some (pred', succ', w) \<Rightarrow>
              (\<exists>p. build_path pred' succ' w = Some (Inr p) \<and> is_path g s t p
                   \<and> (\<forall>q. is_path g s t q \<longrightarrow> length p \<le> length q)))"
  using assms
proof (induction g pred succ ff rf arbitrary: k l rule: search.induct)
  case (1 g pred succ ff rf)
  note es = "1.prems"(1) and et = "1.prems"(2) and dj = "1.prems"(3)
  have As: "\<forall>x \<in> dom pred. deep g pred s k x" and Bs: "\<forall>x. near g s k x \<longrightarrow> x \<in> dom pred"
    and Cs: "\<forall>x \<in> dom pred - set ff. set (neighbors g x) \<subseteq> dom pred"
    using es by (simp_all add: explored_def)
  have At: "\<forall>x \<in> dom succ. deep g succ t l x" and Bt: "\<forall>x. near g t l x \<longrightarrow> x \<in> dom succ"
    and Ct: "\<forall>x \<in> dom succ - set rf. set (neighbors g x) \<subseteq> dom succ"
    using et by (simp_all add: explored_def)
  have sp: "s \<in> dom pred" using Bs near_self by blast
  have ts: "t \<in> dom succ" using Bt near_self by blast
  have low: "\<forall>q. is_path g s t q \<longrightarrow> k + l + 2 \<le> length q"
    using path_crosses[OF Bs Bt dj] by blast
  show ?case
  proof (cases "ff = [] \<or> rf = []")
    case True
    have none: "search g pred succ ff rf = None" using True by simp
    have "\<not> is_path g s t q" for q
    proof (cases "ff = []")
      case True
      have "t \<notin> dom pred" using ts dj by blast
      then show ?thesis using no_path_closed[of "dom pred" g s t q] Cs sp True by simp
    next
      case False
      then have rf: "rf = []" using True by simp
      have "s \<notin> dom succ" using sp dj by blast
      then have "\<not> is_path g t s (rev q)"
        using no_path_closed[of "dom succ" g t s "rev q"] Ct ts rf by simp
      then show ?thesis using is_path_rev by blast
    qed
    then show ?thesis unfolding none by simp
  next
    case False
    then have ne: "ff \<noteq> []" "rf \<noteq> []" by simp_all
    show ?thesis
    proof (cases "length ff \<le> length rf")
      case True
      show ?thesis
      proof (cases "level g pred succ ff []")
        case (Inl found)
        obtain p1 w1 where f: "found = (p1, w1)" by (cases found)
        have sr: "search g pred succ ff rf = Some (p1, succ, w1)"
          using ne True Inl f by simp
        from explored_hit[OF es, of succ p1 w1] Inl f
        have d1: "deep g p1 s (Suc k) w1" and w1: "w1 \<in> dom succ" by simp_all
        have d2: "deep g succ t l w1" using At w1 by blast
        have "\<forall>q. is_path g s t q \<longrightarrow> Suc (Suc k + l) \<le> length q" using low by auto
        from meet_shortest[OF d1 d2 this] show ?thesis unfolding sr by simp
      next
        case (Inr cont)
        obtain p1 f1 where c: "cont = (p1, f1)" by (cases cont)
        have l: "level g pred succ ff [] = Inr (p1, f1)" using Inr c by simp
        have sr: "search g pred succ ff rf = search g p1 succ f1 rf"
          using ne True l by simp
        have e1: "explored g p1 s (Suc k) f1" by (rule explored_level[OF es l])
        have "x \<notin> dom succ" if "x \<in> dom p1" for x
        proof (cases "x \<in> dom pred")
          case True
          then show ?thesis using dj by blast
        next
          case False
          then have "succ x = None" using level_fresh[OF l] that by blast
          then show ?thesis by (simp add: domIff)
        qed
        then have "dom p1 \<inter> dom succ = {}" by blast
        from "1.IH"(1)[OF False True Inr c[symmetric] e1 et this] show ?thesis
          by (simp only: sr)
      qed
    next
      case False
      show ?thesis
      proof (cases "level g succ pred rf []")
        case (Inl found)
        obtain s1 w1 where f: "found = (s1, w1)" by (cases found)
        have sr: "search g pred succ ff rf = Some (pred, s1, w1)"
          using ne False Inl f by simp
        from explored_hit[OF et, of pred s1 w1] Inl f
        have d2: "deep g s1 t (Suc l) w1" and w1: "w1 \<in> dom pred" by simp_all
        have d1: "deep g pred s k w1" using As w1 by blast
        have "\<forall>q. is_path g s t q \<longrightarrow> Suc (k + Suc l) \<le> length q" using low by auto
        from meet_shortest[OF d1 d2 this] show ?thesis unfolding sr by simp
      next
        case (Inr cont)
        obtain s1 f1 where c: "cont = (s1, f1)" by (cases cont)
        have l: "level g succ pred rf [] = Inr (s1, f1)" using Inr c by simp
        have sr: "search g pred succ ff rf = search g pred s1 ff f1"
          using ne False l by simp
        have e1: "explored g s1 t (Suc l) f1" by (rule explored_level[OF et l])
        have "x \<notin> dom pred" if "x \<in> dom s1" for x
        proof (cases "x \<in> dom succ")
          case True
          then show ?thesis using dj by blast
        next
          case False
          then have "pred x = None" using level_fresh[OF l] that by blast
          then show ?thesis by (simp add: domIff)
        qed
        then have "dom pred \<inter> dom s1 = {}" by blast
        from "1.IH"(2)[OF \<open>\<not> (ff = [] \<or> rf = [])\<close> False Inr c[symmetric] es e1 this] show ?thesis
          by (simp only: sr)
      qed
    qed
  qed
qed

lemma shortest_path_spec:
  "shortest_path g s t = Some (Inl NodeNotFound) \<and> (\<not> has_node g s \<or> \<not> has_node g t)
   \<or> shortest_path g s t = Some (Inl NetworkXNoPath) \<and> has_node g s \<and> has_node g t
        \<and> (\<forall>q. \<not> is_path g s t q)
   \<or> (\<exists>p. shortest_path g s t = Some (Inr p) \<and> has_node g s \<and> has_node g t
          \<and> is_path g s t p \<and> (\<forall>q. is_path g s t q \<longrightarrow> length p \<le> length q))"
proof (cases "\<not> has_node g s \<or> \<not> has_node g t")
  case True
  then show ?thesis by (simp add: shortest_path_def bidirectional_shortest_path_def)
next
  case False
  then have n: "has_node g s" "has_node g t" by simp_all
  show ?thesis
  proof (cases "t = s")
    case True
    have c: "chain [s \<mapsto> None] s [s]" by (rule chain.root) simp
    have b: "build_path [s \<mapsto> None] [s \<mapsto> None] s = Some (Inr [s])"
      using build_path_chain[OF c c] by simp
    have sp: "shortest_path g s t = Some (Inr [s])"
      using n True b
      by (simp add: shortest_path_def bidirectional_shortest_path_def bidirectional_pred_succ_def)
    have i: "is_path g s t [s]" using True by (simp add: is_path_def)
    have "\<forall>q. is_path g s t q \<longrightarrow> length [s] \<le> length q"
    proof (intro allI impI)
      fix q assume "is_path g s t q"
      then have "q \<noteq> []" by (simp add: is_path_def)
      then show "length [s] \<le> length q" by (cases q) simp_all
    qed
    then show ?thesis using sp i n by blast
  next
    case False
    have bps: "bidirectional_pred_succ g s t = search g [s \<mapsto> None] [t \<mapsto> None] [s] [t]"
      using False by (simp only: bidirectional_pred_succ_def if_False)
    have dj: "dom [s \<mapsto> None] \<inter> dom [t \<mapsto> None] = {}" using False by auto
    note ss = search_shortest[OF explored_init[of g s] explored_init[of g t] dj]
    show ?thesis
    proof (cases "search g [s \<mapsto> None] [t \<mapsto> None] [s] [t]")
      case None
      then have "shortest_path g s t = Some (Inl NetworkXNoPath)"
        using n by (simp only: shortest_path_def bidirectional_shortest_path_def bps)
           simp
      moreover have "\<forall>q. \<not> is_path g s t q" using ss unfolding None by simp
      ultimately show ?thesis using n by blast
    next
      case (Some found)
      obtain pred succ w where f: "found = (pred, succ, w)" by (cases found)
      have sp: "shortest_path g s t = build_path pred succ w"
        using n by (simp only: shortest_path_def bidirectional_shortest_path_def bps Some f)
           simp
      have "\<exists>p. build_path pred succ w = Some (Inr p) \<and> is_path g s t p
             \<and> (\<forall>q. is_path g s t q \<longrightarrow> length p \<le> length q)"
        using ss unfolding Some f by simp
      then show ?thesis using sp n by auto
    qed
  qed
qed

lemma scan_all_miss:
  assumes "\<forall>w \<in> set ws. other w = None"
  shows "\<exists>this' fr'. scan this other v ws fr = Inr (this', fr')
           \<and> (\<forall>x. this' x = (if x \<in> dom this then this x
                               else if x \<in> set ws then Some (Some v) else None))
           \<and> set fr' = set fr \<union> (set ws - dom this)"
  using assms
proof (induction ws arbitrary: this fr)
  case Nil
  then show ?case by (auto simp: domIff)
next
  case (Cons w ws)
  let ?this' = "if this w = None then this(w \<mapsto> Some v) else this"
  let ?fr' = "if this w = None then fr @ [w] else fr"
  have o: "other w = None" and os: "\<forall>w \<in> set ws. other w = None" using Cons.prems by simp_all
  have eq: "scan this other v (w # ws) fr = scan ?this' other v ws ?fr'"
    using o by (simp add: Let_def)
  from Cons.IH[OF os, of ?this' ?fr'] obtain this' fr' where
    r: "scan ?this' other v ws ?fr' = Inr (this', fr')"
    and m: "\<forall>x. this' x = (if x \<in> dom ?this' then ?this' x
                               else if x \<in> set ws then Some (Some v) else None)"
    and f: "set fr' = set ?fr' \<union> (set ws - dom ?this')"
    by blast
  have m': "\<forall>x. this' x = (if x \<in> dom this then this x
                               else if x \<in> set (w # ws) then Some (Some v) else None)"
    using m by (auto simp: domIff)
  have f': "set fr' = set fr \<union> (set (w # ws) - dom this)"
    using f by (auto simp: domIff split: if_splits)
  show ?case unfolding eq using r m' f' by blast
qed

lemma scan_first_hit:
  assumes "find (\<lambda>w. other w \<noteq> None) ws = Some y"
  shows "\<exists>this'. scan this other v ws fr = Inl (this', y)
           \<and> (\<forall>x \<in> dom this. this' x = this x)
           \<and> (y \<notin> dom this \<longrightarrow> this' y = Some (Some v))"
  using assms
proof (induction ws arbitrary: this fr)
  case Nil
  then show ?case by simp
next
  case (Cons w ws)
  let ?this' = "if this w = None then this(w \<mapsto> Some v) else this"
  let ?fr' = "if this w = None then fr @ [w] else fr"
  show ?case
  proof (cases "other w = None")
    case False
    then have y: "y = w" using Cons.prems by simp
    have "scan this other v (w # ws) fr = Inl (?this', w)"
      using False by (simp add: Let_def)
    moreover have "\<forall>x \<in> dom this. ?this' x = this x" by (auto simp: domIff)
    moreover have "w \<notin> dom this \<longrightarrow> ?this' w = Some (Some v)" by (auto simp: domIff)
    ultimately show ?thesis unfolding y by blast
  next
    case True
    then have fi: "find (\<lambda>w. other w \<noteq> None) ws = Some y" using Cons.prems by simp
    have eq: "scan this other v (w # ws) fr = scan ?this' other v ws ?fr'"
      using True by (simp add: Let_def)
    from Cons.IH[OF fi, of ?this' ?fr'] obtain this' where
      r: "scan ?this' other v ws ?fr' = Inl (this', y)"
      and k: "\<forall>x \<in> dom ?this'. this' x = ?this' x"
      and n: "y \<notin> dom ?this' \<longrightarrow> this' y = Some (Some v)"
      by blast
    have k': "\<forall>x \<in> dom this. this' x = this x"
    proof
      fix x assume x: "x \<in> dom this"
      then have "x \<in> dom ?this'" by (auto simp: domIff)
      then have "this' x = ?this' x" using k by blast
      then show "this' x = this x" using x by (auto simp: domIff)
    qed
    have n': "y \<notin> dom this \<longrightarrow> this' y = Some (Some v)"
    proof
      assume y: "y \<notin> dom this"
      show "this' y = Some (Some v)"
      proof (cases "y \<in> dom ?this'")
        case True
        then have "this' y = ?this' y" using k by blast
        moreover have "y = w \<and> this w = None" using True y by (auto simp: domIff split: if_splits)
        ultimately show ?thesis by simp
      next
        case False
        then show ?thesis using n by blast
      qed
    qed
    show ?thesis unfolding eq using r k' n' by blast
  qed
qed

text \<open>
  Ties between paths of two edges.  When the source has at least two neighbours, the
  search turns to the target after one level, and the first node in the adjacency list
  of the target that is a neighbour of the source becomes the middle of the path.
\<close>

lemma two_edge_tie:
  assumes n: "has_node g s" "has_node g t" and st: "s \<noteq> t" "\<not> has_edge g s t"
      and a: "has_edge g s a" "a \<noteq> s" and b: "has_edge g s b" "b \<noteq> s" and ab: "a \<noteq> b"
      and y: "find (\<lambda>y. has_edge g s y) (neighbors g t) = Some y"
  shows "shortest_path g s t = Some (Inr [s, y, t])"
proof -
  let ?P = "[s \<mapsto> None] :: links" and ?S = "[t \<mapsto> None] :: links"
  have tn: "t \<notin> set (neighbors g s)" using st(2) by (simp add: has_edge_neighbors)
  have sn: "s \<notin> set (neighbors g t)" using st(2) has_edge_sym[of g s t] by (simp add: has_edge_neighbors)
  have "\<forall>w \<in> set (neighbors g s). ?S w = None" using tn by auto
  from scan_all_miss[OF this, of ?P s "[]"] obtain pred1 ff1 where
    sc: "scan ?P ?S s (neighbors g s) [] = Inr (pred1, ff1)"
    and p1: "\<forall>x. pred1 x = (if x \<in> dom ?P then ?P x
                               else if x \<in> set (neighbors g s) then Some (Some s) else None)"
    and f1: "set ff1 = set [] \<union> (set (neighbors g s) - dom ?P)"
    by blast
  have p1s: "pred1 s = Some None" using p1 by simp
  have p1n: "x \<noteq> s \<Longrightarrow> pred1 x = (if x \<in> set (neighbors g s) then Some (Some s) else None)" for x
    using p1 by simp
  have l1: "level g ?P ?S [s] [] = Inr (pred1, ff1)" by (simp add: sc del: scan.simps)
  have "{a, b} \<subseteq> set ff1" using a b f1 by (auto simp: has_edge_neighbors)
  then have "card {a, b} \<le> card (set ff1)" by (intro card_mono) simp_all
  then have "2 \<le> card (set ff1)" using ab by simp
  then have len: "2 \<le> length ff1" using card_length[of ff1] by linarith
  then have ff1: "ff1 \<noteq> []" "\<not> length ff1 \<le> length [t]" by auto
  have s1: "search g ?P ?S [s] [t] = search g pred1 ?S ff1 [t]"
    by (subst search.simps) (simp add: l1 del: search.simps level.simps)
  have ynb: "y \<in> set (neighbors g t)" and ys: "has_edge g s y"
    using y by (auto simp: find_Some_iff)
  have yns: "y \<noteq> s" using ynb sn by blast
  have ynt: "y \<noteq> t" using ys st(2) by blast
  have "(\<lambda>w. pred1 w \<noteq> None) w = has_edge g s w" if "w \<in> set (neighbors g t)" for w
  proof -
    have "w \<noteq> s" using that sn by blast
    then show ?thesis using p1n[of w] by (simp add: has_edge_neighbors)
  qed
  then have "find (\<lambda>w. pred1 w \<noteq> None) (neighbors g t) = find (\<lambda>y. has_edge g s y) (neighbors g t)"
    by (intro find_cong) simp_all
  then have fy: "find (\<lambda>w. pred1 w \<noteq> None) (neighbors g t) = Some y" using y by simp
  from scan_first_hit[OF fy, of ?S t "[]"] obtain succ1 where
    sc2: "scan ?S pred1 t (neighbors g t) [] = Inl (succ1, y)"
    and k2: "\<forall>x \<in> dom ?S. succ1 x = ?S x"
    and n2: "y \<notin> dom ?S \<longrightarrow> succ1 y = Some (Some t)"
    by blast
  have l2: "level g ?S pred1 [t] [] = Inl (succ1, y)" by (simp add: sc2 del: scan.simps)
  have s2: "search g pred1 ?S ff1 [t] = Some (pred1, succ1, y)"
    using ff1 by (subst search.simps) (simp add: l2 del: search.simps level.simps)
  have c1: "chain pred1 y [y, s]"
    using p1n[OF yns] ys p1s by (intro chain.link[where y = s] chain.root) (simp_all add: has_edge_neighbors)
  have st1: "succ1 t = Some None" using k2 by simp
  have sy1: "succ1 y = Some (Some t)" using n2 ynt by simp
  have c2: "chain succ1 y [y, t]"
    using st1 sy1 by (intro chain.link[where y = t] chain.root) simp_all
  have "build_path pred1 succ1 y = Some (Inr [s, y, t])"
    using build_path_chain[OF c1 c2] by simp
  then show ?thesis
    using n st(1) s1 s2
    by (simp add: shortest_path_def bidirectional_shortest_path_def bidirectional_pred_succ_def
        del: search.simps)
qed

lemma two_edge_paths_tie:
  assumes n: "has_node g s" "has_node g t" and st: "s \<noteq> t" "\<not> has_edge g s t"
      and ab: "a \<noteq> b" and pa: "is_path g s t [s, a, t]" and pb: "is_path g s t [s, b, t]"
  shows "\<exists>y. find (\<lambda>y. has_edge g s y) (neighbors g t) = Some y
             \<and> shortest_path g s t = Some (Inr [s, y, t])"
proof -
  have a: "has_edge g s a" "has_edge g a t" using pa by (simp_all add: is_path_def)
  have b: "has_edge g s b" "has_edge g b t" using pb by (simp_all add: is_path_def)
  have as: "a \<noteq> s" using a(2) st(2) by blast
  have bs: "b \<noteq> s" using b(2) st(2) by blast
  have "a \<in> set (neighbors g t)" using a(2) has_edge_sym[of g a t] by (simp add: has_edge_neighbors)
  then have "find (\<lambda>y. has_edge g s y) (neighbors g t) \<noteq> None"
    using a(1) by (auto simp: find_None_iff)
  then obtain y where y: "find (\<lambda>y. has_edge g s y) (neighbors g t) = Some y" by blast
  from two_edge_tie[OF n st a(1) as b(1) bs ab y] y show ?thesis by blast
qed

text \<open>
  Claim C6, as amended.  The shortest-path computation always returns.  It raises
  NodeNotFound exactly when the source or the target is not a node of the graph, it
  raises NetworkXNoPath exactly when both are nodes and no path of the graph joins them,
  and otherwise it returns a path of the graph from the source to the target that no
  other such path is shorter than.  Ties are broken by adjacency order, not by node
  identifiers: whenever two different paths of two edges join a source and a target that
  are not adjacent, the path returned goes through the first node in the adjacency list of
  the target that is a neighbour of the source.  The result is a function of the edges in
  their insertion order and of which nodes exist: two graphs with the same edge list and
  the same nodes give the same result.
\<close>

theorem shortest_path_by_adjacency_order:
  "(shortest_path g s t = Some (Inl NodeNotFound) \<and> (\<not> has_node g s \<or> \<not> has_node g t)
    \<or> shortest_path g s t = Some (Inl NetworkXNoPath) \<and> has_node g s \<and> has_node g t
         \<and> (\<forall>q. \<not> is_path g s t q)
    \<or> (\<exists>p. shortest_path g s t = Some (Inr p) \<and> has_node g s \<and> has_node g t
           \<and> is_path g s t p \<and> (\<forall>q. is_path g s t q \<longrightarrow> length p \<le> length q)))
   \<and> (has_node g s \<and> has_node g t \<and> s \<noteq> t \<and> \<not> has_edge g s t \<and> a \<noteq> b
        \<and> is_path g s t [s, a, t] \<and> is_path g s t [s, b, t] \<longrightarrow>
        (\<exists>y. find (\<lambda>y. has_edge g s y) (neighbors g t) = Some y
             \<and> shortest_path g s t = Some (Inr [s, y, t])))
   \<and> (edges g = edges g' \<and> set (map fst (nodes g)) = set (map fst (nodes g')) \<longrightarrow>
        shortest_path g s t = shortest_path g' s t)"
proof (intro conjI impI)
  show "shortest_path g s t = Some (Inl NodeNotFound) \<and> (\<not> has_node g s \<or> \<not> has_node g t)
    \<or> shortest_path g s t = Some (Inl NetworkXNoPath) \<and> has_node g s \<and> has_node g t
         \<and> (\<forall>q. \<not> is_path g s t q)
    \<or> (\<exists>p. shortest_path g s t = Some (Inr p) \<and> has_node g s \<and> has_node g t
           \<and> is_path g s t p \<and> (\<forall>q. is_path g s t q \<longrightarrow> length p \<le> length q))"
    by (rule shortest_path_spec)
next
  assume "has_node g s \<and> has_node g t \<and> s \<noteq> t \<and> \<not> has_edge g s t \<and> a \<noteq> b
        \<and> is_path g s t [s, a, t] \<and> is_path g s t [s, b, t]"
  then show "\<exists>y. find (\<lambda>y. has_edge g s y) (neighbors g t) = Some y
             \<and> shortest_path g s t = Some (Inr [s, y, t])"
    using two_edge_paths_tie[of g s t a b] by blast
next
  assume "edges g = edges g' \<and> set (map fst (nodes g)) = set (map fst (nodes g'))"
  then show "shortest_path g s t = shortest_path g' s t"
    using shortest_path_edges_cong[of g g' s t] by blast
qed

text \<open>
  Counterexample to C6 as stated: in the first diamond the path through \<open>b\<close> is returned
  although the path through \<open>a\<close> is as short and \<open>a\<close> comes before \<open>b\<close>; the second diamond
  has the same nodes and the same edges, inserted in another order, and gives the other
  path.
\<close>

theorem shortest_path_not_lexicographic:
  "shortest_path diamond ''s'' ''t'' = Some (Inr [''s'', ''b'', ''t''])
   \<and> is_path diamond ''s'' ''t'' [''s'', ''a'', ''t'']
   \<and> (of_char (CHR ''a'') :: nat) < of_char (CHR ''b'')
   \<and> shortest_path diamond' ''s'' ''t'' = Some (Inr [''s'', ''a'', ''t''])
   \<and> set (map ends (edges diamond)) = set (map ends (edges diamond'))
   \<and> set (map fst (nodes diamond)) = set (map fst (nodes diamond'))"
proof -
  have d: "diamond = \<lparr>nodes = [(''s'', None), (''b'', None), (''a'', None), (''t'', None)],
      edges = [(''s'', ''b'', 1, 1), (''s'', ''a'', 1, 1), (''b'', ''t'', 1, 1), (''a'', ''t'', 1, 1)]\<rparr>"
    by (simp add: diamond_def add_edge_def touch_def empty_graph_def has_node_def has_edge_def
        joins_def Let_def)
  have d': "diamond' = \<lparr>nodes = [(''s'', None), (''a'', None), (''b'', None), (''t'', None)],
      edges = [(''s'', ''a'', 1, 1), (''s'', ''b'', 1, 1), (''a'', ''t'', 1, 1), (''b'', ''t'', 1, 1)]\<rparr>"
    by (simp add: diamond'_def add_edge_def touch_def empty_graph_def has_node_def has_edge_def
        joins_def Let_def)
  have "is_path diamond ''s'' ''t'' [''s'', ''a'', ''t'']"
    by (simp add: is_path_def d has_edge_def joins_def)
  moreover have "set (map ends (edges diamond)) = set (map ends (edges diamond'))"
    by (auto simp: d d' ends_def)
  moreover have "set (map fst (nodes diamond)) = set (map fst (nodes diamond'))"
    by (auto simp: d d')
  ultimately show ?thesis using diamond_path diamond_path' by simp
qed

lemma diamond'_eq:
  "diamond' = \<lparr>nodes = [(''s'', None), (''a'', None), (''b'', None), (''t'', None)],
      edges = [(''s'', ''a'', 1, 1), (''s'', ''b'', 1, 1), (''a'', ''t'', 1, 1), (''b'', ''t'', 1, 1)]\<rparr>"
  by (simp add: diamond'_def add_edge_def touch_def empty_graph_def has_node_def has_edge_def
      joins_def Let_def)

text \<open>
  Witness for C6: in the second diamond the two paths of two edges tie, \<open>a\<close> comes first
  in the adjacency list of the target, and the path through \<open>a\<close> is returned.
\<close>

theorem shortest_path_by_adjacency_order_witness:
  "has_node diamond' ''s'' \<and> has_node diamond' ''t'' \<and> ''s'' \<noteq> ''t''
   \<and> \<not> has_edge diamond' ''s'' ''t'' \<and> ''a'' \<noteq> ''b''
   \<and> is_path diamond' ''s'' ''t'' [''s'', ''a'', ''t'']
   \<and> is_path diamond' ''s'' ''t'' [''s'', ''b'', ''t'']
   \<and> find (\<lambda>y. has_edge diamond' ''s'' y) (neighbors diamond' ''t'') = Some ''a''
   \<and> shortest_path diamond' ''s'' ''t'' = Some (Inr [''s'', ''a'', ''t''])"
proof -
  have n: "has_node diamond' ''s''" "has_node diamond' ''t''"
    by (simp_all add: diamond'_eq has_node_def)
  have e: "\<not> has_edge diamond' ''s'' ''t''" by (simp add: diamond'_eq has_edge_def joins_def)
  have pa: "is_path diamond' ''s'' ''t'' [''s'', ''a'', ''t'']"
    by (simp add: is_path_def diamond'_eq has_edge_def joins_def)
  have pb: "is_path diamond' ''s'' ''t'' [''s'', ''b'', ''t'']"
    by (simp add: is_path_def diamond'_eq has_edge_def joins_def)
  have f: "find (\<lambda>y. has_edge diamond' ''s'' y) (neighbors diamond' ''t'') = Some ''a''"
    by (simp add: diamond'_eq has_edge_def joins_def neighbors_def)
  have "shortest_path diamond' ''s'' ''t'' = Some (Inr [''s'', ''a'', ''t''])"
    using shortest_path_by_adjacency_order[of diamond' "''s''" "''t''" "''a''" "''b''" diamond'] n e pa pb f by simp
  then show ?thesis using n e pa pb f by simp
qed

end
